theory Spec2Isabelle
  imports Complex_Main "HOL-Library.AList" "HOL-Library.List_Lexorder" "HOL-Library.Char_ord"
begin

section \<open>Command queue (\<open>CommandQueue\<close> in command-queue.js)\<close>

text \<open>
  A command as \<open>sendCommand\<close> stores it. An absent \<open>id\<close> is the empty string (both are
  falsy in \<open>command.id || this.generateCommandId()\<close>); absent \<open>priority\<close>, \<open>taskType\<close>
  and \<open>targetComponentIds\<close> are \<open>None\<close>.
\<close>

datatype command_status = PENDING | DELIVERED

record command =
  cmd_id :: string
  cmd_type :: string
  cmd_source :: string
  cmd_priority :: "string option"
  cmd_targetComponentIds :: "string list option"
  cmd_taskType :: "string option"
  cmd_timestamp :: nat
  cmd_status :: command_status

record filters =
  flt_taskTypes :: "string list option"
  flt_componentIds :: "string list option"
  flt_priority :: "string option"

text \<open>The outcome of the promise that \<open>waitForCommand\<close> returns.\<close>

datatype wait_result = Resolved command | Rejected string

record waiter =
  w_handle :: nat
  w_filters :: filters
  w_timeout :: nat
  w_startedAt :: nat

datatype action =
  WAIT_STARTED | WAIT_FAILED | COMMAND_RECEIVED | COMMAND_SENT | COMMAND_QUEUED | COMMAND_CANCELLED

datatype history_data =
  HCommand command | HError string | HWait filters nat | HSent command string

record history_entry =
  h_timestamp :: nat
  h_action :: action
  h_agentId :: "string option"
  h_data :: history_data

text \<open>
  The two JavaScript \<open>Map\<close>s are association lists in insertion order. \<open>promises\<close> is the
  list of all promises handed out by \<open>waitForCommand\<close>, by handle (its index): the agent
  that called, and the settlement once there is one.
\<close>

record CommandQueue =
  pendingCommands :: "(string \<times> command) list"
  waitingAgents :: "(string \<times> waiter) list"
  commandHistory :: "history_entry list"
  promises :: "(string \<times> wait_result option) list"

definition maxHistorySize :: nat where
  "maxHistorySize = 1000"

definition new_CommandQueue :: CommandQueue where
  "new_CommandQueue =
     \<lparr>pendingCommands = [], waitingAgents = [], commandHistory = [], promises = []\<rparr>"

text \<open>\<open>Map.prototype.set\<close>: an existing key keeps its place, a new key goes last.\<close>

definition map_set :: "string \<Rightarrow> 'v \<Rightarrow> (string \<times> 'v) list \<Rightarrow> (string \<times> 'v) list" where
  "map_set k v m = AList.update k v m"

definition map_delete :: "string \<Rightarrow> (string \<times> 'v) list \<Rightarrow> (string \<times> 'v) list" where
  "map_delete k m = AList.delete k m"

text \<open>A promise settles once; later calls of its \<open>resolve\<close> or \<open>reject\<close> do nothing.\<close>

definition settle :: "nat \<Rightarrow> wait_result \<Rightarrow> CommandQueue \<Rightarrow> CommandQueue" where
  "settle h r q =
     (if h < length (promises q) \<and> snd (promises q ! h) = None
      then q\<lparr>promises := (promises q)[h := (fst (promises q ! h), Some r)]\<rparr>
      else q)"

definition addToHistory ::
  "nat \<Rightarrow> action \<Rightarrow> string option \<Rightarrow> history_data \<Rightarrow> CommandQueue \<Rightarrow> CommandQueue" where
  "addToHistory now act agent d q =
     (let h = commandHistory q @
                [\<lparr>h_timestamp = now, h_action = act, h_agentId = agent, h_data = d\<rparr>]
      in q\<lparr>commandHistory :=
             (if length h > maxHistorySize then drop (length h - maxHistorySize) h else h)\<rparr>)"

text \<open>
  \<open>priorityLevels[p]\<close>: an entry of the table, or a member that the table inherits from
  \<open>Object.prototype\<close>, which is a function or, for \<open>__proto__\<close>, the prototype itself. In a
  comparison such a member counts as the string Node.js prints for it.
\<close>

datatype priority_value = Level nat | Inherited string

definition prototype_functions :: "string list" where
  "prototype_functions =
     [''__defineGetter__'', ''__defineSetter__'', ''hasOwnProperty'', ''__lookupGetter__'',
      ''__lookupSetter__'', ''isPrototypeOf'', ''propertyIsEnumerable'', ''toString'', ''valueOf'',
      ''toLocaleString'']"

definition priorityLevels :: "string \<Rightarrow> priority_value option" where
  "priorityLevels p =
     (if p = ''LOW'' then Some (Level 1)
      else if p = ''MEDIUM'' then Some (Level 2)
      else if p = ''HIGH'' then Some (Level 3)
      else if p = ''URGENT'' then Some (Level 4)
      else if p = ''constructor'' then Some (Inherited ''function Object() { [native code] }'')
      else if p = ''__proto__'' then Some (Inherited ''[object Object]'')
      else if p \<in> set prototype_functions
      then Some (Inherited (''function '' @ p @ ''() { [native code] }''))
      else None)"

text \<open>\<open>priorityLevels[p] || 1\<close>: every entry and every inherited member is truthy.\<close>

definition priority_level :: "string option \<Rightarrow> priority_value" where
  "priority_level p =
     (case p of None \<Rightarrow> Level 1
      | Some s \<Rightarrow> (case priorityLevels s of None \<Rightarrow> Level 1 | Some v \<Rightarrow> v))"

text \<open>
  \<open>a < b\<close>: two numbers by value, two strings by their characters; a string against a
  number is not a number, and no comparison with it holds.
\<close>

fun less_than :: "priority_value \<Rightarrow> priority_value \<Rightarrow> bool" where
  "less_than (Level m) (Level n) = (m < n)"
| "less_than (Inherited s) (Inherited t) = (s < t)"
| "less_than (Level m) (Inherited t) = False"
| "less_than (Inherited s) (Level n) = False"

definition commandMatchesFilters :: "command \<Rightarrow> filters \<Rightarrow> bool" where
  "commandMatchesFilters c f =
     (if flt_taskTypes f = None \<and> flt_componentIds f = None \<and> flt_priority f = None
      then True
      else if (case flt_taskTypes f of
                 None \<Rightarrow> False
               | Some ts \<Rightarrow>
                   (if ts = [] then False
                    else (case cmd_taskType c of
                            None \<Rightarrow> True
                          | Some t \<Rightarrow> (if t = [] then True else t \<notin> set ts))))
      then False
      else if (case flt_componentIds f of
                 None \<Rightarrow> False
               | Some ids \<Rightarrow>
                   (if ids = [] then False
                    else (case cmd_targetComponentIds c of
                            None \<Rightarrow> True
                          | Some tids \<Rightarrow> list_all (\<lambda>i. i \<notin> set ids) tids)))
      then False
      else if (case flt_priority f of
                 None \<Rightarrow> False
               | Some p \<Rightarrow>
                   (if p = [] then False
                    else less_than (priority_level (cmd_priority c)) (priority_level (Some p))))
      then False
      else True)"

text \<open>The loop over \<open>this.pendingCommands.values()\<close>, in the map's insertion order.\<close>

fun first_matching_command :: "(string \<times> command) list \<Rightarrow> filters \<Rightarrow> command option" where
  "first_matching_command [] f = None"
| "first_matching_command ((k, c) # rest) f =
     (if commandMatchesFilters c f then Some c else first_matching_command rest f)"

definition findMatchingPendingCommand :: "CommandQueue \<Rightarrow> filters \<Rightarrow> command option" where
  "findMatchingPendingCommand q f = first_matching_command (pendingCommands q) f"

text \<open>The loop over \<open>this.waitingAgents\<close>, in the map's insertion order.\<close>

fun first_matching_agent :: "(string \<times> waiter) list \<Rightarrow> command \<Rightarrow> string option" where
  "first_matching_agent [] c = None"
| "first_matching_agent ((a, w) # rest) c =
     (if commandMatchesFilters c (w_filters w) then Some a else first_matching_agent rest c)"

definition findMatchingWaitingAgent :: "CommandQueue \<Rightarrow> command \<Rightarrow> string option" where
  "findMatchingWaitingAgent q c = first_matching_agent (waitingAgents q) c"

text \<open>Decimal digits of a number, for the \<open>${timeout}\<close> of the timeout message.\<close>

fun digits :: "nat \<Rightarrow> string" where
  "digits n =
     (if n < 10 then [char_of (48 + n)]
      else digits (n div 10) @ [char_of (48 + n mod 10)])"

definition superseded_message :: string where
  "superseded_message = ''Agent started waiting for new command, canceling previous wait''"

definition cancelled_message :: string where
  "cancelled_message = ''Wait cancelled by external request''"

definition timeout_message :: "nat \<Rightarrow> string" where
  "timeout_message t = ''Wait for command timed out after '' @ digits t @ ''ms''"

text \<open>
  The \<open>resolve\<close> and \<open>reject\<close> closures stored with a waiting agent: clear the timer,
  delete the agent's entry, write the history entry, settle the promise.
\<close>

definition agent_resolve :: "nat \<Rightarrow> string \<Rightarrow> waiter \<Rightarrow> command \<Rightarrow> CommandQueue \<Rightarrow> CommandQueue" where
  "agent_resolve now agentId w c q =
     settle (w_handle w) (Resolved c)
       (addToHistory now COMMAND_RECEIVED (Some agentId) (HCommand c)
          (q\<lparr>waitingAgents := map_delete agentId (waitingAgents q)\<rparr>))"

definition agent_reject :: "nat \<Rightarrow> string \<Rightarrow> waiter \<Rightarrow> string \<Rightarrow> CommandQueue \<Rightarrow> CommandQueue" where
  "agent_reject now agentId w msg q =
     settle (w_handle w) (Rejected msg)
       (addToHistory now WAIT_FAILED (Some agentId) (HError msg)
          (q\<lparr>waitingAgents := map_delete agentId (waitingAgents q)\<rparr>))"

text \<open>
  \<open>waitForCommand\<close> returns the handle of the promise it hands out and the new state.
  With a matching pending command the promise is already resolved.
\<close>

definition waitForCommand ::
  "nat \<Rightarrow> string \<Rightarrow> nat \<Rightarrow> filters \<Rightarrow> CommandQueue \<Rightarrow> nat \<times> CommandQueue" where
  "waitForCommand now agentId timeout f q =
     (case findMatchingPendingCommand q f of
        Some c \<Rightarrow>
          (let q1 = q\<lparr>pendingCommands := map_delete (cmd_id c) (pendingCommands q)\<rparr>;
               q2 = addToHistory now COMMAND_RECEIVED (Some agentId) (HCommand c) q1
           in (length (promises q2),
               q2\<lparr>promises := promises q2 @ [(agentId, Some (Resolved c))]\<rparr>))
      | None \<Rightarrow>
          (let q1 = (case map_of (waitingAgents q) agentId of
                       Some existing \<Rightarrow> agent_reject now agentId existing superseded_message q
                     | None \<Rightarrow> q);
               h = length (promises q1);
               q2 = q1\<lparr>promises := promises q1 @ [(agentId, None)],
                       waitingAgents :=
                         map_set agentId
                           \<lparr>w_handle = h, w_filters = f, w_timeout = timeout, w_startedAt = now\<rparr>
                           (waitingAgents q1)\<rparr>
           in (h, addToHistory now WAIT_STARTED (Some agentId) (HWait f timeout) q2)))"

text \<open>The timer callback of the wait registered for \<open>agentId\<close>: no history entry.\<close>

definition timer_fires :: "string \<Rightarrow> CommandQueue \<Rightarrow> CommandQueue" where
  "timer_fires agentId q =
     (case map_of (waitingAgents q) agentId of
        None \<Rightarrow> q
      | Some w \<Rightarrow>
          settle (w_handle w) (Rejected (timeout_message (w_timeout w)))
            (q\<lparr>waitingAgents := map_delete agentId (waitingAgents q)\<rparr>))"

text \<open>
  \<open>sendCommand\<close>; \<open>gen\<close> is what \<open>generateCommandId()\<close> would return. The result is
  the agent the command was delivered to, if any. A matching agent whose id is the empty
  string fails the test \<open>if (matchingAgentId)\<close>, and the command is queued.
\<close>

definition sendCommand ::
  "nat \<Rightarrow> string \<Rightarrow> command \<Rightarrow> CommandQueue \<Rightarrow> string option \<times> CommandQueue" where
  "sendCommand now gen c q =
     (let fullCommand = c\<lparr>cmd_id := (if cmd_id c = [] then gen else cmd_id c),
                           cmd_timestamp := now, cmd_status := PENDING\<rparr>;
          matchingAgentId = findMatchingWaitingAgent q fullCommand;
          queued =
            (None,
             addToHistory now COMMAND_QUEUED None (HCommand fullCommand)
               (q\<lparr>pendingCommands :=
                    map_set (cmd_id fullCommand) fullCommand (pendingCommands q)\<rparr>))
      in case matchingAgentId of
           Some agentId \<Rightarrow>
             (if agentId = [] then queued
              else
                (case map_of (waitingAgents q) agentId of
                   Some agent \<Rightarrow>
                     (let delivered = fullCommand\<lparr>cmd_status := DELIVERED\<rparr>
                      in (Some agentId,
                          addToHistory now COMMAND_SENT None (HSent delivered agentId)
                            (agent_resolve now agentId agent delivered q)))
                 | None \<Rightarrow> (None, q)))
         | None \<Rightarrow> queued)"

definition cancelCommand :: "nat \<Rightarrow> string \<Rightarrow> CommandQueue \<Rightarrow> bool \<times> CommandQueue" where
  "cancelCommand now commandId q =
     (case map_of (pendingCommands q) commandId of
        Some c \<Rightarrow>
          (True,
           addToHistory now COMMAND_CANCELLED None (HCommand c)
             (q\<lparr>pendingCommands := map_delete commandId (pendingCommands q)\<rparr>))
      | None \<Rightarrow> (False, q))"

definition cancelWait :: "nat \<Rightarrow> string \<Rightarrow> CommandQueue \<Rightarrow> bool \<times> CommandQueue" where
  "cancelWait now agentId q =
     (case map_of (waitingAgents q) agentId of
        Some agent \<Rightarrow> (True, agent_reject now agentId agent cancelled_message q)
      | None \<Rightarrow> (False, q))"

text \<open>Everything that can happen to a queue, and the states it can be in.\<close>

datatype queue_event =
    Wait string nat filters
  | Send string command
  | CancelCommand string
  | CancelWait string
  | TimerFires string

fun queue_step :: "nat \<Rightarrow> queue_event \<Rightarrow> CommandQueue \<Rightarrow> CommandQueue" where
  "queue_step now (Wait agentId timeout f) q = snd (waitForCommand now agentId timeout f q)"
| "queue_step now (Send gen c) q = snd (sendCommand now gen c q)"
| "queue_step now (CancelCommand commandId) q = snd (cancelCommand now commandId q)"
| "queue_step now (CancelWait agentId) q = snd (cancelWait now agentId q)"
| "queue_step now (TimerFires agentId) q = timer_fires agentId q"

inductive reachable :: "CommandQueue \<Rightarrow> bool" where
  reachable_new: "reachable new_CommandQueue"
| reachable_step: "reachable q \<Longrightarrow> reachable (queue_step now e q)"

text \<open>The handles of the promises of \<open>agentId\<close> that are not settled: its ACTIVE waits.\<close>

definition active_waits :: "CommandQueue \<Rightarrow> string \<Rightarrow> nat list" where
  "active_waits q agentId =
     filter (\<lambda>h. promises q ! h = (agentId, None)) [0 ..< length (promises q)]"

text \<open>The invariant that ties the registry of waiting agents to the unsettled promises.\<close>

definition wp_inv :: "(string \<times> waiter) list \<Rightarrow> (string \<times> wait_result option) list \<Rightarrow> bool" where
  "wp_inv W P \<longleftrightarrow>
     distinct (map fst W)
   \<and> (\<forall>a w. (a, w) \<in> set W \<longrightarrow> w_handle w < length P \<and> P ! w_handle w = (a, None))
   \<and> (\<forall>h < length P. snd (P ! h) = None \<longrightarrow>
         (\<exists>w. (fst (P ! h), w) \<in> set W \<and> w_handle w = h))"

definition queue_inv :: "CommandQueue \<Rightarrow> bool" where
  "queue_inv q \<longleftrightarrow> wp_inv (waitingAgents q) (promises q)"


subsection \<open>Example queues\<close>

definition no_filters :: filters where
  "no_filters = \<lparr>flt_taskTypes = None, flt_componentIds = None, flt_priority = None\<rparr>"

definition example_command :: "string \<Rightarrow> string option \<Rightarrow> command" where
  "example_command p t =
     \<lparr>cmd_id = [], cmd_type = ''EXECUTE_TASK'', cmd_source = ''mcp-server'',
      cmd_priority = Some p, cmd_targetComponentIds = Some [], cmd_taskType = t,
      cmd_timestamp = 0, cmd_status = PENDING\<rparr>"

definition high_only :: filters where
  "high_only = \<lparr>flt_taskTypes = None, flt_componentIds = None, flt_priority = Some ''HIGH''\<rparr>"

text \<open>Scenario S4: no waiters; LOW, URGENT and MEDIUM are sent in that order.\<close>

definition s4_queue :: CommandQueue where
  "s4_queue =
     snd (sendCommand 3 ''cmd_3'' (example_command ''MEDIUM'' None)
       (snd (sendCommand 2 ''cmd_2'' (example_command ''URGENT'' None)
         (snd (sendCommand 1 ''cmd_1'' (example_command ''LOW'' None) new_CommandQueue)))))"

definition s4_three_waits :: CommandQueue where
  "s4_three_waits =
     snd (waitForCommand 6 ''A'' 300000 no_filters
       (snd (waitForCommand 5 ''A'' 300000 no_filters
         (snd (waitForCommand 4 ''A'' 300000 no_filters s4_queue)))))"

fun received_priority :: "string \<times> wait_result option \<Rightarrow> string option" where
  "received_priority (a, Some (Resolved c)) = cmd_priority c"
| "received_priority (a, Some (Rejected msg)) = None"
| "received_priority (a, None) = None"

text \<open>
  Agent A waits for TESTING tasks; a DEPLOY command is sent, which A's filter refuses, so
  it is queued while A's wait stays registered.
\<close>

definition testing_only :: filters where
  "testing_only = \<lparr>flt_taskTypes = Some [''TESTING''], flt_componentIds = None, flt_priority = None\<rparr>"

definition waiting_queue :: CommandQueue where
  "waiting_queue = snd (waitForCommand 1 ''A'' 300000 testing_only new_CommandQueue)"

definition waiting_with_pending :: CommandQueue where
  "waiting_with_pending =
     snd (sendCommand 2 ''cmd_1'' (example_command ''HIGH'' (Some ''DEPLOY'')) waiting_queue)"


section \<open>The graph store (\<open>GraphDatabase\<close> in database.js, \<open>ChangeHistory\<close> in history.js)\<close>

subsection \<open>JavaScript values\<close>

text \<open>
  The values that tool arguments, node properties and JSON documents are made of.
  \<open>undefined\<close> is the absence of a key. \<open>JNum x\<close> is the double whose exact value is \<open>x\<close>: the
  code compares and stores the numbers it is given and computes none from them, so no
  rounding is modelled, and a rational that is the value of no double stands for no
  JavaScript number.
  \<open>JJson v\<close> is the string \<open>JSON.stringify(v)\<close>: the journal and the snapshots store their
  states as such strings and read them back with \<open>JSON.parse\<close>. The text itself is not
  modelled: a string written as \<open>JStr\<close> is taken not to be JSON text, and the strings
  inside a document are written as \<open>JStr\<close>. An object lists its keys as JavaScript does:
  the array indices in ascending order, then the other keys in the order they were added.
\<close>

datatype jsval =
    JNull
  | JBool bool
  | JNum rat
  | JStr string
  | JJson jsval
  | JArr "jsval list"
  | JObj "(string \<times> jsval) list"

type_synonym jsobj = "(string \<times> jsval) list"

datatype error =
    ZodError
  | ConstraintError
  | NotFoundError string
  | SyntaxError
  | TypeError
  | Neo4jError

definition bind :: "error + 'a \<Rightarrow> ('a \<Rightarrow> error + 'b) \<Rightarrow> error + 'b" where
  "bind r f = (case r of Inl e \<Rightarrow> Inl e | Inr x \<Rightarrow> f x)"

text \<open>Truthiness of \<open>obj.key\<close>, as \<open>||\<close>, \<open>?:\<close> and \<open>if\<close> test it.\<close>

fun truthy :: "jsval option \<Rightarrow> bool" where
  "truthy None = False"
| "truthy (Some JNull) = False"
| "truthy (Some (JBool b)) = b"
| "truthy (Some (JNum n)) = (n \<noteq> 0)"
| "truthy (Some (JStr s)) = (s \<noteq> [])"
| "truthy (Some (JJson v)) = True"
| "truthy (Some (JArr vs)) = True"
| "truthy (Some (JObj kvs)) = True"

text \<open>
  Array indices, which an object lists first: the canonical decimal numerals below
  4294967295.
\<close>

definition index_value :: "string \<Rightarrow> int" where
  "index_value k = foldl (\<lambda>n c. 10 * n + (of_char c - 48)) 0 k"

definition is_array_index :: "string \<Rightarrow> bool" where
  "is_array_index k =
     (k \<noteq> [] \<and> list_all (\<lambda>c. c \<in> set ''0123456789'') k \<and> (k = ''0'' \<or> hd k \<noteq> CHR ''0'')
      \<and> length k \<le> 10 \<and> index_value k < 4294967295)"

text \<open>A new array index goes to its place among the indices that open the list.\<close>

fun insert_index :: "string \<Rightarrow> 'v \<Rightarrow> (string \<times> 'v) list \<Rightarrow> (string \<times> 'v) list" where
  "insert_index k v [] = [(k, v)]"
| "insert_index k v (p # ps) =
     (if is_array_index (fst p) \<and> index_value (fst p) < index_value k
      then p # insert_index k v ps else (k, v) # p # ps)"

text \<open>\<open>obj[k] = v\<close>: a key the object has keeps its place.\<close>

definition obj_set :: "string \<Rightarrow> 'v \<Rightarrow> (string \<times> 'v) list \<Rightarrow> (string \<times> 'v) list" where
  "obj_set k v props =
     (if k \<in> fst ` set props then AList.update k v props
      else if is_array_index k then insert_index k v props
      else props @ [(k, v)])"

text \<open>\<open>{...base, ...obj}\<close>\<close>

definition spread :: "jsobj \<Rightarrow> jsobj \<Rightarrow> jsobj" where
  "spread obj base = fold (\<lambda>kv. obj_set (fst kv) (snd kv)) obj base"

text \<open>
  \<open>JSON.parse(x)\<close>, which reads the string of \<open>x\<close>. \<open>JJson v\<close> gives back \<open>v\<close>. A number, a
  boolean and \<open>null\<close> print as JSON text of themselves; \<open>undefined\<close> and an object print
  as text that is not JSON; an array prints its elements between commas, a \<open>null\<close> element
  as nothing, so that only an array of one element can print as JSON text.
\<close>

fun JSON_parse :: "jsval option \<Rightarrow> error + jsval" where
  "JSON_parse None = Inl SyntaxError"
| "JSON_parse (Some (JJson v)) = Inr v"
| "JSON_parse (Some JNull) = Inr JNull"
| "JSON_parse (Some (JBool b)) = Inr (JBool b)"
| "JSON_parse (Some (JNum x)) = Inr (JNum x)"
| "JSON_parse (Some (JStr s)) = Inl SyntaxError"
| "JSON_parse (Some (JObj kvs)) = Inl SyntaxError"
| "JSON_parse (Some (JArr [])) = Inl SyntaxError"
| "JSON_parse (Some (JArr [v])) = (if v = JNull then Inl SyntaxError else JSON_parse (Some v))"
| "JSON_parse (Some (JArr (v # w # vs))) = Inl SyntaxError"

definition JSON_stringify :: "jsval \<Rightarrow> jsval" where
  "JSON_stringify v = JJson v"

subsection \<open>Validation (models.js)\<close>

definition ComponentType :: "string list" where
  "ComponentType =
     [''FILE'', ''FUNCTION'', ''CLASS'', ''MODULE'', ''SYSTEM'', ''INTERFACE'', ''VARIABLE'',
      ''CONSTANT'', ''REQUIREMENT'', ''SPECIFICATION'', ''FEATURE'', ''USER_STORY'',
      ''ACCEPTANCE_CRITERIA'', ''TEST_CASE'']"

definition RelationshipType :: "string list" where
  "RelationshipType =
     [''DEPENDS_ON'', ''IMPLEMENTS'', ''EXTENDS'', ''CONTAINS'', ''CALLS'', ''IMPORTS'',
      ''EXPORTS'', ''OVERRIDES'', ''USES'', ''CREATES'', ''SATISFIES'', ''DERIVES_FROM'',
      ''REFINES'', ''TRACES_TO'', ''VALIDATES'', ''VERIFIES'', ''CONFLICTS_WITH'', ''SUPPORTS'',
      ''ALLOCATES_TO'', ''REALIZES'', ''PRECEDES'', ''FOLLOWS'', ''CONCURRENT'']"

definition TaskStatus :: "string list" where
  "TaskStatus = [''TODO'', ''IN_PROGRESS'', ''DONE'', ''BLOCKED'', ''CANCELLED'']"

text \<open>\<open>z.string().uuid()\<close> of zod 3.22: hexadecimal digits in groups of 8-4-4-4-12.\<close>

definition is_hex :: "char \<Rightarrow> bool" where
  "is_hex c = (c \<in> set ''0123456789abcdefABCDEF'')"

definition is_uuid :: "string \<Rightarrow> bool" where
  "is_uuid s =
     (length s = 36
      \<and> list_all is_hex (take 8 s) \<and> s ! 8 = CHR ''-''
      \<and> list_all is_hex (take 4 (drop 9 s)) \<and> s ! 13 = CHR ''-''
      \<and> list_all is_hex (take 4 (drop 14 s)) \<and> s ! 18 = CHR ''-''
      \<and> list_all is_hex (take 4 (drop 19 s)) \<and> s ! 23 = CHR ''-''
      \<and> list_all is_hex (drop 24 s))"

fun z_uuid :: "jsval option \<Rightarrow> error + string" where
  "z_uuid (Some (JStr s)) = (if is_uuid s then Inr s else Inl ZodError)"
| "z_uuid v = Inl ZodError"

fun z_enum :: "string list \<Rightarrow> jsval option \<Rightarrow> error + string" where
  "z_enum vs (Some (JStr s)) = (if s \<in> set vs then Inr s else Inl ZodError)"
| "z_enum vs v = Inl ZodError"

text \<open>\<open>z.string().min(1)\<close>\<close>

fun z_nonempty :: "jsval option \<Rightarrow> error + string" where
  "z_nonempty (Some (JStr s)) = (if s \<noteq> [] then Inr s else Inl ZodError)"
| "z_nonempty v = Inl ZodError"

text \<open>\<open>z.string().optional()\<close>\<close>

fun z_string_optional :: "jsval option \<Rightarrow> error + string option" where
  "z_string_optional None = Inr None"
| "z_string_optional (Some (JStr s)) = Inr (Some s)"
| "z_string_optional (Some v) = Inl ZodError"

text \<open>\<open>z.record(z.string()).default({})\<close>\<close>

fun z_string_value :: "string \<times> jsval \<Rightarrow> (string \<times> string) option" where
  "z_string_value (k, JStr s) = Some (k, s)"
| "z_string_value (k, v) = None"

fun z_string_record :: "jsval option \<Rightarrow> error + (string \<times> string) list" where
  "z_string_record None = Inr []"
| "z_string_record (Some (JObj kvs)) =
     (if list_all (\<lambda>kv. z_string_value kv \<noteq> None) kvs
      then Inr (List.map_filter z_string_value kvs) else Inl ZodError)"
| "z_string_record (Some v) = Inl ZodError"

text \<open>\<open>z.array(z.string().uuid()).default([])\<close>\<close>

fun z_uuid_value :: "jsval \<Rightarrow> string option" where
  "z_uuid_value (JStr s) = (if is_uuid s then Some s else None)"
| "z_uuid_value v = None"

fun z_uuid_array :: "jsval option \<Rightarrow> error + string list" where
  "z_uuid_array None = Inr []"
| "z_uuid_array (Some (JArr vs)) =
     (if list_all (\<lambda>v. z_uuid_value v \<noteq> None) vs
      then Inr (List.map_filter z_uuid_value vs) else Inl ZodError)"
| "z_uuid_array (Some v) = Inl ZodError"

text \<open>\<open>z.number().min(lo).max(hi)\<close>, optional, and with a default.\<close>

fun z_number_optional :: "rat \<Rightarrow> rat \<Rightarrow> jsval option \<Rightarrow> error + rat option" where
  "z_number_optional lo hi None = Inr None"
| "z_number_optional lo hi (Some (JNum x)) =
     (if lo \<le> x \<and> x \<le> hi then Inr (Some x) else Inl ZodError)"
| "z_number_optional lo hi (Some v) = Inl ZodError"

fun z_number_default :: "rat \<Rightarrow> rat \<Rightarrow> rat \<Rightarrow> jsval option \<Rightarrow> error + rat" where
  "z_number_default lo hi d None = Inr d"
| "z_number_default lo hi d (Some (JNum x)) =
     (if lo \<le> x \<and> x \<le> hi then Inr x else Inl ZodError)"
| "z_number_default lo hi d (Some v) = Inl ZodError"

text \<open>\<open>z.number().int().min(1).optional()\<close>\<close>

fun z_positive_int_optional :: "jsval option \<Rightarrow> error + rat option" where
  "z_positive_int_optional None = Inr None"
| "z_positive_int_optional (Some (JNum x)) =
     (if of_int (floor x) = x \<and> 1 \<le> x then Inr (Some x) else Inl ZodError)"
| "z_positive_int_optional (Some v) = Inl ZodError"

record Component =
  comp_id :: string
  comp_type :: string
  comp_name :: string
  comp_description :: "string option"
  comp_path :: "string option"
  comp_codebase :: "string option"
  comp_metadata :: "(string \<times> string) list"

text \<open>\<open>ComponentSchema.parse(data)\<close>; keys the schema does not name are dropped.\<close>

definition ComponentSchema_parse :: "jsobj \<Rightarrow> error + Component" where
  "ComponentSchema_parse data =
     bind (z_uuid (map_of data ''id'')) (\<lambda>i.
     bind (z_enum ComponentType (map_of data ''type'')) (\<lambda>t.
     bind (z_nonempty (map_of data ''name'')) (\<lambda>n.
     bind (z_string_optional (map_of data ''description'')) (\<lambda>d.
     bind (z_string_optional (map_of data ''path'')) (\<lambda>p.
     bind (z_string_optional (map_of data ''codebase'')) (\<lambda>c.
     bind (z_string_record (map_of data ''metadata'')) (\<lambda>m.
       Inr \<lparr>comp_id = i, comp_type = t, comp_name = n, comp_description = d,
            comp_path = p, comp_codebase = c, comp_metadata = m\<rparr>)))))))"

text \<open>\<open>x || ''\<close> for an optional string.\<close>

definition or_empty :: "string option \<Rightarrow> string" where
  "or_empty s = (case s of None \<Rightarrow> [] | Some x \<Rightarrow> x)"

definition string_props :: "(string \<times> string) list \<Rightarrow> jsobj" where
  "string_props m = map (\<lambda>kv. (fst kv, JStr (snd kv))) m"

text \<open>\<open>Component.toNode().properties\<close>: the metadata is spread last.\<close>

definition Component_toNode :: "Component \<Rightarrow> jsobj" where
  "Component_toNode c =
     spread (string_props (comp_metadata c))
       [(''id'', JStr (comp_id c)), (''type'', JStr (comp_type c)), (''name'', JStr (comp_name c)),
        (''description'', JStr (or_empty (comp_description c))),
        (''path'', JStr (or_empty (comp_path c))),
        (''codebase'', JStr (or_empty (comp_codebase c)))]"

record Relationship =
  rel_id :: string
  rel_type :: string
  rel_sourceId :: string
  rel_targetId :: string
  rel_details :: "(string \<times> string) list"
  rel_timeOrder :: "rat option"
  rel_probability :: "rat option"
  rel_reasoning :: "string option"

definition RelationshipSchema_parse :: "jsobj \<Rightarrow> error + Relationship" where
  "RelationshipSchema_parse data =
     bind (z_uuid (map_of data ''id'')) (\<lambda>i.
     bind (z_enum RelationshipType (map_of data ''type'')) (\<lambda>t.
     bind (z_uuid (map_of data ''sourceId'')) (\<lambda>s.
     bind (z_uuid (map_of data ''targetId'')) (\<lambda>g.
     bind (z_string_record (map_of data ''details'')) (\<lambda>d.
     bind (z_positive_int_optional (map_of data ''timeOrder'')) (\<lambda>n.
     bind (z_number_optional 0 100 (map_of data ''probability'')) (\<lambda>p.
     bind (z_string_optional (map_of data ''reasoning'')) (\<lambda>r.
       Inr \<lparr>rel_id = i, rel_type = t, rel_sourceId = s, rel_targetId = g, rel_details = d,
            rel_timeOrder = n, rel_probability = p, rel_reasoning = r\<rparr>))))))))"

definition optional_prop :: "string \<Rightarrow> jsval option \<Rightarrow> jsobj \<Rightarrow> jsobj" where
  "optional_prop k v props = (case v of None \<Rightarrow> props | Some x \<Rightarrow> AList.update k x props)"

text \<open>\<open>Relationship.toRelation().properties\<close>\<close>

definition Relationship_toRelation :: "Relationship \<Rightarrow> jsobj" where
  "Relationship_toRelation r =
     optional_prop ''reasoning'' (map_option JStr (rel_reasoning r))
       (optional_prop ''probability'' (map_option JNum (rel_probability r))
          (optional_prop ''timeOrder'' (map_option JNum (rel_timeOrder r))
             (spread (string_props (rel_details r)) [(''id'', JStr (rel_id r))])))"

record Task =
  task_id :: string
  task_name :: string
  task_description :: "string option"
  task_status :: string
  task_progress :: rat
  task_codebase :: "string option"
  task_relatedComponentIds :: "string list"
  task_metadata :: "(string \<times> string) list"

definition TaskSchema_parse :: "jsobj \<Rightarrow> error + Task" where
  "TaskSchema_parse data =
     bind (z_uuid (map_of data ''id'')) (\<lambda>i.
     bind (z_nonempty (map_of data ''name'')) (\<lambda>n.
     bind (z_string_optional (map_of data ''description'')) (\<lambda>d.
     bind (z_enum TaskStatus (map_of data ''status'')) (\<lambda>s.
     bind (z_number_default 0 1 0 (map_of data ''progress'')) (\<lambda>p.
     bind (z_string_optional (map_of data ''codebase'')) (\<lambda>c.
     bind (z_uuid_array (map_of data ''relatedComponentIds'')) (\<lambda>r.
     bind (z_string_record (map_of data ''metadata'')) (\<lambda>m.
       Inr \<lparr>task_id = i, task_name = n, task_description = d, task_status = s,
            task_progress = p, task_codebase = c, task_relatedComponentIds = r,
            task_metadata = m\<rparr>))))))))"

definition Task_toNode :: "Task \<Rightarrow> jsobj" where
  "Task_toNode t =
     spread (string_props (task_metadata t))
       [(''id'', JStr (task_id t)), (''name'', JStr (task_name t)),
        (''description'', JStr (or_empty (task_description t))),
        (''status'', JStr (task_status t)), (''progress'', JNum (task_progress t)),
        (''codebase'', JStr (or_empty (task_codebase t)))]"


subsection \<open>The graph backend\<close>

text \<open>
  Neo4j as the code uses it: labelled nodes with properties, typed edges between nodes.
  A node is known by its internal key, not by its \<open>id\<close> property. The backend is taken to
  do what the Cypher says; \<open>LIMIT n\<close> keeps the first \<open>n\<close> rows.
\<close>

record node =
  n_key :: nat
  n_labels :: "string list"
  n_props :: jsobj

record edge =
  e_type :: string
  e_start :: nat
  e_end :: nat
  e_props :: jsobj

text \<open>
  What \<open>uuidv4()\<close> and \<open>new Date().toISOString()\<close> return, call by call. Timestamps are
  the ISO strings themselves, compared as strings, as the Cypher compares them.
\<close>

record env =
  uuids :: "nat \<Rightarrow> string"
  clock :: "nat \<Rightarrow> string"

record graph =
  nodes :: "node list"
  edges :: "edge list"
  next_key :: nat
  uuid_calls :: nat
  clock_calls :: nat

definition empty_graph :: graph where
  "empty_graph = \<lparr>nodes = [], edges = [], next_key = 0, uuid_calls = 0, clock_calls = 0\<rparr>"

definition uuidv4 :: "env \<Rightarrow> graph \<Rightarrow> string \<times> graph" where
  "uuidv4 env g = (uuids env (uuid_calls g), g\<lparr>uuid_calls := Suc (uuid_calls g)\<rparr>)"

definition toISOString :: "env \<Rightarrow> graph \<Rightarrow> string \<times> graph" where
  "toISOString env g = (clock env (clock_calls g), g\<lparr>clock_calls := Suc (clock_calls g)\<rparr>)"

definition has_label :: "string \<Rightarrow> node \<Rightarrow> bool" where
  "has_label l n = (l \<in> set (n_labels n))"

definition node_prop :: "node \<Rightarrow> string \<Rightarrow> jsval option" where
  "node_prop n k = map_of (n_props n) k"

text \<open>\<open>(n:Label {id: $id})\<close>; a null parameter matches nothing.\<close>

definition id_is :: "jsval \<Rightarrow> node \<Rightarrow> bool" where
  "id_is v n = (if v = JNull then False else node_prop n ''id'' = Some v)"

definition match_nodes :: "string \<Rightarrow> jsval \<Rightarrow> graph \<Rightarrow> node list" where
  "match_nodes l v g = filter (\<lambda>n. has_label l n \<and> id_is v n) (nodes g)"

definition node_at :: "graph \<Rightarrow> nat \<Rightarrow> node option" where
  "node_at g k = find (\<lambda>n. n_key n = k) (nodes g)"

text \<open>The uniqueness constraints of \<open>initializeSchema\<close> (both classes), on the \<open>id\<close> property.\<close>

definition constrained_labels :: "string list" where
  "constrained_labels = [''Component'', ''Task'', ''Comment'', ''ChangeEvent'']"

definition label_ids :: "string \<Rightarrow> node list \<Rightarrow> jsval list" where
  "label_ids l ns = List.map_filter (\<lambda>n. if has_label l n then node_prop n ''id'' else None) ns"

definition unique_ok :: "node list \<Rightarrow> bool" where
  "unique_ok ns = list_all (\<lambda>l. distinct (label_ids l ns)) constrained_labels"

text \<open>A property map as stored: a null value stores nothing.\<close>

definition neo4j_props :: "jsobj \<Rightarrow> jsobj" where
  "neo4j_props props = filter (\<lambda>kv. snd kv \<noteq> JNull) props"

text \<open>\<open>CREATE (n:Labels) SET n = $properties RETURN n\<close>\<close>

definition create_node :: "string list \<Rightarrow> jsobj \<Rightarrow> graph \<Rightarrow> (error + node) \<times> graph" where
  "create_node ls props g =
     (let n = \<lparr>n_key = next_key g, n_labels = ls, n_props = neo4j_props props\<rparr>;
          ns = nodes g @ [n]
      in if unique_ok ns
         then (Inr n, g\<lparr>nodes := ns, next_key := Suc (next_key g)\<rparr>)
         else (Inl ConstraintError, g))"

text \<open>\<open>SET n += $updates\<close>: a null value removes the property.\<close>

definition merge_props :: "jsobj \<Rightarrow> jsobj \<Rightarrow> jsobj" where
  "merge_props updates props =
     fold (\<lambda>kv ps. if snd kv = JNull then AList.delete (fst kv) ps
                    else obj_set (fst kv) (snd kv) ps) updates props"

text \<open>\<open>MATCH (n:Label {id: $id}) SET n += $updates RETURN n\<close>: the rows returned.\<close>

definition update_nodes ::
  "string \<Rightarrow> jsval \<Rightarrow> jsobj \<Rightarrow> graph \<Rightarrow> (error + node list) \<times> graph" where
  "update_nodes l v updates g =
     (let ns = map (\<lambda>n. if has_label l n \<and> id_is v n
                         then n\<lparr>n_props := merge_props updates (n_props n)\<rparr> else n) (nodes g)
      in if unique_ok ns
         then (Inr (map (\<lambda>n. n\<lparr>n_props := merge_props updates (n_props n)\<rparr>) (match_nodes l v g)),
               g\<lparr>nodes := ns\<rparr>)
         else (Inl ConstraintError, g))"

text \<open>\<open>MATCH (n) WHERE gone n DETACH DELETE n\<close>: the nodes and every edge at one of them.\<close>

definition detach_delete :: "(node \<Rightarrow> bool) \<Rightarrow> graph \<Rightarrow> graph" where
  "detach_delete gone g =
     (let keys = map n_key (filter gone (nodes g))
      in g\<lparr>nodes := filter (\<lambda>n. \<not> gone n) (nodes g),
            edges := filter (\<lambda>e. e_start e \<notin> set keys \<and> e_end e \<notin> set keys) (edges g)\<rparr>)"

text \<open>\<open>CREATE (s)-[r:TYPE]->(t) SET r = $properties\<close>, for every matched pair.\<close>

definition create_edges :: "string \<Rightarrow> jsobj \<Rightarrow> (node \<times> node) list \<Rightarrow> graph \<Rightarrow> graph" where
  "create_edges t props pairs g =
     g\<lparr>edges := edges g @
          map (\<lambda>st. \<lparr>e_type = t, e_start = n_key (fst st), e_end = n_key (snd st),
                     e_props = neo4j_props props\<rparr>) pairs\<rparr>"

text \<open>\<open>result.records[0]?.get('n').properties\<close>\<close>

definition first_props :: "node list \<Rightarrow> jsobj option" where
  "first_props ns = (case ns of [] \<Rightarrow> None | n # rest \<Rightarrow> Some (n_props n))"

text \<open>\<open>data.id || uuidv4()\<close>\<close>

definition id_or_uuid :: "env \<Rightarrow> jsobj \<Rightarrow> graph \<Rightarrow> jsval \<times> graph" where
  "id_or_uuid env data g =
     (case map_of data ''id'' of
        None \<Rightarrow> (case uuidv4 env g of (u, g') \<Rightarrow> (JStr u, g'))
      | Some v \<Rightarrow> (if truthy (Some v) then (v, g)
                   else (case uuidv4 env g of (u, g') \<Rightarrow> (JStr u, g'))))"

text \<open>\<open>x || d\<close>\<close>

definition js_or :: "jsval option \<Rightarrow> jsval \<Rightarrow> jsval" where
  "js_or v d = (case v of None \<Rightarrow> d | Some x \<Rightarrow> (if truthy (Some x) then x else d))"

definition or_null :: "jsval option \<Rightarrow> jsval" where
  "or_null v = (case v of None \<Rightarrow> JNull | Some x \<Rightarrow> x)"

subsection \<open>The change journal: writing\<close>

text \<open>
  \<open>ChangeHistory.recordChange\<close>. \<open>entityId\<close> is \<open>None\<close> when the caller's expression is
  \<open>undefined\<close>; a null state is \<open>JNull\<close>. The result is the event written.
\<close>

definition recordChange ::
  "env \<Rightarrow> string \<Rightarrow> string \<Rightarrow> jsval option \<Rightarrow> jsval \<Rightarrow> jsval \<Rightarrow> jsobj \<Rightarrow> graph
     \<Rightarrow> (error + jsobj) \<times> graph" where
  "recordChange env operation entityType entityId beforeState afterState metadata g =
     (case uuidv4 env g of (u, g1) \<Rightarrow>
      case toISOString env g1 of (t, g2) \<Rightarrow>
        (let changeEvent =
               spread metadata
                 [(''id'', JStr u), (''operation'', JStr operation),
                  (''entityType'', JStr entityType), (''entityId'', or_null entityId),
                  (''beforeState'', JSON_stringify (js_or (Some beforeState) (JObj []))),
                  (''afterState'', JSON_stringify (js_or (Some afterState) (JObj []))),
                  (''timestamp'', JStr t),
                  (''sessionId'', js_or (map_of metadata ''sessionId'') (JStr ''anonymous'')),
                  (''userId'', js_or (map_of metadata ''userId'') (JStr ''system'')),
                  (''source'', js_or (map_of metadata ''source'') (JStr ''mcp-server''))]
         in case create_node [''ChangeEvent''] changeEvent g2 of
              (Inl e, g3) \<Rightarrow> (Inl e, g3)
            | (Inr n, g3) \<Rightarrow> (Inr changeEvent, g3)))"

text \<open>The journal: the \<open>ChangeEvent\<close> nodes, in the order they were written.\<close>

definition journal :: "graph \<Rightarrow> node list" where
  "journal g = filter (has_label ''ChangeEvent'') (nodes g)"

definition snapshots :: "graph \<Rightarrow> node list" where
  "snapshots g = filter (has_label ''Snapshot'') (nodes g)"

definition components :: "graph \<Rightarrow> node list" where
  "components g = filter (has_label ''Component'') (nodes g)"

definition tasks :: "graph \<Rightarrow> node list" where
  "tasks g = filter (has_label ''Task'') (nodes g)"



subsection \<open>Components, relationships and tasks (\<open>GraphDatabase\<close>)\<close>

text \<open>The \<open>CREATE (c:Component:TYPE) SET c = $properties\<close> of \<open>createComponent\<close> and of the bulk loop.\<close>

definition create_component_node :: "env \<Rightarrow> jsobj \<Rightarrow> graph \<Rightarrow> (error + node) \<times> graph" where
  "create_component_node env componentData g =
     (case id_or_uuid env componentData g of (i, g1) \<Rightarrow>
      case ComponentSchema_parse (AList.update ''id'' i componentData) of
        Inl e \<Rightarrow> (Inl e, g1)
      | Inr component \<Rightarrow>
          create_node [''Component'', comp_type component] (Component_toNode component) g1)"

definition createComponent ::
  "env \<Rightarrow> jsobj \<Rightarrow> jsobj \<Rightarrow> graph \<Rightarrow> (error + jsobj) \<times> graph" where
  "createComponent env componentData metadata g =
     (case create_component_node env componentData g of
        (Inl e, g2) \<Rightarrow> (Inl e, g2)
      | (Inr n, g2) \<Rightarrow>
          (case recordChange env ''CREATE_COMPONENT'' ''COMPONENT'' (node_prop n ''id'') JNull
                  (JObj (n_props n)) metadata g2 of
             (Inl e, g3) \<Rightarrow> (Inl e, g3)
           | (Inr ev, g3) \<Rightarrow> (Inr (n_props n), g3)))"

definition getComponent :: "jsval \<Rightarrow> graph \<Rightarrow> jsobj option" where
  "getComponent i g = first_props (match_nodes ''Component'' i g)"

definition updateComponent :: "jsval \<Rightarrow> jsobj \<Rightarrow> graph \<Rightarrow> (error + jsobj option) \<times> graph" where
  "updateComponent i updates g =
     (case update_nodes ''Component'' i updates g of
        (Inl e, g1) \<Rightarrow> (Inl e, g1)
      | (Inr ns, g1) \<Rightarrow> (Inr (first_props ns), g1))"

definition deleteComponent :: "jsval \<Rightarrow> graph \<Rightarrow> bool \<times> graph" where
  "deleteComponent i g =
     (True, detach_delete (\<lambda>n. has_label ''Component'' n \<and> id_is i n) g)"

text \<open>
  \<open>createRelationship\<close>: an edge for every pair of a source and a target component with
  the given ids; the first edge's properties, or \<open>None\<close> for the \<open>null\<close> returned when
  nothing matched.
\<close>

definition createRelationship ::
  "env \<Rightarrow> jsobj \<Rightarrow> graph \<Rightarrow> (error + jsobj option) \<times> graph" where
  "createRelationship env relationshipData g =
     (case id_or_uuid env relationshipData g of (i, g1) \<Rightarrow>
      case RelationshipSchema_parse (AList.update ''id'' i relationshipData) of
        Inl e \<Rightarrow> (Inl e, g1)
      | Inr relationship \<Rightarrow>
          (let pairs = List.product
                 (match_nodes ''Component'' (JStr (rel_sourceId relationship)) g1)
                 (match_nodes ''Component'' (JStr (rel_targetId relationship)) g1)
           in (Inr (case pairs of
                      [] \<Rightarrow> None
                    | st # rest \<Rightarrow>
                        Some (spread [(''sourceName'', or_null (node_prop (fst st) ''name'')),
                                      (''targetName'', or_null (node_prop (snd st) ''name''))]
                                (neo4j_props (Relationship_toRelation relationship)))),
               create_edges (rel_type relationship) (Relationship_toRelation relationship)
                 pairs g1)))"

text \<open>
  A record of the query of \<open>getComponentRelationships\<close>: the columns \<open>r\<close> and \<open>target\<close>, and
  the \<open>direction\<close> column, which only the query for both directions returns. The row keeps
  the edge itself as well, so that its kind can be spoken of.
\<close>

record relationship_row =
  row_edge :: edge
  row_relationship :: jsobj
  row_target :: jsobj
  row_direction :: "string option"

definition is_component_with :: "graph \<Rightarrow> jsval option \<Rightarrow> nat \<Rightarrow> bool" where
  "is_component_with g i k =
     (case node_at g k of
        None \<Rightarrow> False
      | Some n \<Rightarrow> has_label ''Component'' n \<and>
                  (case i of None \<Rightarrow> True | Some v \<Rightarrow> id_is v n))"

definition neighbour_props :: "graph \<Rightarrow> nat \<Rightarrow> jsobj" where
  "neighbour_props g k = (case node_at g k of None \<Rightarrow> [] | Some n \<Rightarrow> n_props n)"

text \<open>\<open>MATCH (c:Component {id: $id})-[r]->(target:Component)\<close>\<close>

definition outgoing_rows :: "jsval \<Rightarrow> string option \<Rightarrow> graph \<Rightarrow> relationship_row list" where
  "outgoing_rows i d g =
     map (\<lambda>e. \<lparr>row_edge = e, row_relationship = e_props e,
                row_target = neighbour_props g (e_end e), row_direction = d\<rparr>)
       (filter (\<lambda>e. is_component_with g (Some i) (e_start e) \<and> is_component_with g None (e_end e))
          (edges g))"

text \<open>\<open>MATCH (source:Component)-[r]->(c:Component {id: $id})\<close>\<close>

definition incoming_rows :: "jsval \<Rightarrow> string option \<Rightarrow> graph \<Rightarrow> relationship_row list" where
  "incoming_rows i d g =
     map (\<lambda>e. \<lparr>row_edge = e, row_relationship = e_props e,
                row_target = neighbour_props g (e_start e), row_direction = d\<rparr>)
       (filter (\<lambda>e. is_component_with g None (e_start e) \<and> is_component_with g (Some i) (e_end e))
          (edges g))"

text \<open>\<open>result.records\<close>, for the query that the direction selects.\<close>

definition relationship_records :: "jsval \<Rightarrow> string \<Rightarrow> graph \<Rightarrow> relationship_row list" where
  "relationship_records componentId direction g =
     (if direction = ''outgoing'' then outgoing_rows componentId None g
      else if direction = ''incoming'' then incoming_rows componentId None g
      else outgoing_rows componentId (Some ''outgoing'') g
             @ incoming_rows componentId (Some ''incoming'') g)"

text \<open>
  The function mapped over the records. \<open>record.get('direction')\<close> throws on a record that
  has no such column, which is every record of the two single-direction queries.
\<close>

definition record_object :: "string \<Rightarrow> relationship_row \<Rightarrow> error + relationship_row" where
  "record_object direction r =
     (case row_direction r of
        None \<Rightarrow> Inl Neo4jError
      | Some d \<Rightarrow> Inr (r\<lparr>row_direction := Some (if d \<noteq> [] then d else direction)\<rparr>))"

fun map_records ::
  "(relationship_row \<Rightarrow> error + relationship_row) \<Rightarrow> relationship_row list
     \<Rightarrow> error + relationship_row list" where
  "map_records f [] = Inr []"
| "map_records f (r # rs) =
     bind (f r) (\<lambda>x. bind (map_records f rs) (\<lambda>xs. Inr (x # xs)))"

definition getComponentRelationships ::
  "jsval \<Rightarrow> string \<Rightarrow> graph \<Rightarrow> error + relationship_row list" where
  "getComponentRelationships componentId direction g =
     map_records (record_object direction) (relationship_records componentId direction g)"

definition related_components :: "string list \<Rightarrow> graph \<Rightarrow> node list" where
  "related_components ids g =
     filter (\<lambda>c. has_label ''Component'' c \<and> list_ex (\<lambda>i. id_is (JStr i) c) ids) (nodes g)"

definition createTask :: "env \<Rightarrow> jsobj \<Rightarrow> graph \<Rightarrow> (error + jsobj) \<times> graph" where
  "createTask env taskData g =
     (case id_or_uuid env taskData g of (i, g1) \<Rightarrow>
      case TaskSchema_parse (AList.update ''id'' i taskData) of
        Inl e \<Rightarrow> (Inl e, g1)
      | Inr task \<Rightarrow>
          (case create_node [''Task''] (Task_toNode task) g1 of
             (Inl e, g2) \<Rightarrow> (Inl e, g2)
           | (Inr n, g2) \<Rightarrow>
               (Inr (n_props n),
                if task_relatedComponentIds task \<noteq> []
                then create_edges ''RELATES_TO'' []
                       (List.product (match_nodes ''Task'' (JStr (task_id task)) g2)
                          (related_components (task_relatedComponentIds task) g2)) g2
                else g2)))"

text \<open>\<open>updateTaskStatus(id, status, progress = null)\<close>\<close>

definition updateTaskStatus ::
  "jsval \<Rightarrow> jsval \<Rightarrow> jsval \<Rightarrow> graph \<Rightarrow> (error + jsobj option) \<times> graph" where
  "updateTaskStatus i status progress g =
     (let updates = (if progress \<noteq> JNull then [(''status'', status), (''progress'', progress)]
                     else [(''status'', status)])
      in case update_nodes ''Task'' i updates g of
           (Inl e, g1) \<Rightarrow> (Inl e, g1)
         | (Inr ns, g1) \<Rightarrow> (Inr (first_props ns), g1))"


subsection \<open>Bulk operations\<close>

text \<open>
  The loops run in one transaction; an error rolls the transaction back: the graph is
  the one before the call (the uuids and clock readings used are used).
\<close>

definition rollback :: "graph \<Rightarrow> graph \<Rightarrow> graph" where
  "rollback g0 g = g0\<lparr>uuid_calls := uuid_calls g, clock_calls := clock_calls g\<rparr>"

fun createComponents_tx :: "env \<Rightarrow> jsobj list \<Rightarrow> graph \<Rightarrow> (error + node list) \<times> graph" where
  "createComponents_tx env [] g = (Inr [], g)"
| "createComponents_tx env (componentData # rest) g =
     (case create_component_node env componentData g of
        (Inl e, g1) \<Rightarrow> (Inl e, g1)
      | (Inr n, g1) \<Rightarrow>
          (case createComponents_tx env rest g1 of
             (Inl e, g2) \<Rightarrow> (Inl e, g2)
           | (Inr ns, g2) \<Rightarrow> (Inr (n # ns), g2)))"

fun record_bulk_changes :: "env \<Rightarrow> node list \<Rightarrow> jsobj \<Rightarrow> graph \<Rightarrow> (error + unit) \<times> graph" where
  "record_bulk_changes env [] metadata g = (Inr (), g)"
| "record_bulk_changes env (n # rest) metadata g =
     (case recordChange env ''CREATE_COMPONENT_BULK'' ''COMPONENT'' (node_prop n ''id'') JNull
             (JObj (n_props n)) metadata g of
        (Inl e, g1) \<Rightarrow> (Inl e, g1)
      | (Inr ev, g1) \<Rightarrow> record_bulk_changes env rest metadata g1)"

definition createComponents ::
  "env \<Rightarrow> jsobj list \<Rightarrow> jsobj \<Rightarrow> graph \<Rightarrow> (error + jsobj list) \<times> graph" where
  "createComponents env componentsData metadata g =
     (case createComponents_tx env componentsData g of
        (Inl e, g1) \<Rightarrow> (Inl e, rollback g g1)
      | (Inr ns, g1) \<Rightarrow>
          (case record_bulk_changes env ns
                  (spread [(''bulkOperation'', JBool True),
                           (''totalCount'', JNum (of_nat (length ns)))] metadata) g1 of
             (Inl e, g2) \<Rightarrow> (Inl e, g2)
           | (Inr u, g2) \<Rightarrow> (Inr (map n_props ns), g2)))"

fun createRelationships_tx :: "env \<Rightarrow> jsobj list \<Rightarrow> graph \<Rightarrow> (error + jsobj list) \<times> graph" where
  "createRelationships_tx env [] g = (Inr [], g)"
| "createRelationships_tx env (relationshipData # rest) g =
     (case createRelationship env relationshipData g of
        (Inl e, g1) \<Rightarrow> (Inl e, g1)
      | (Inr r, g1) \<Rightarrow>
          (case createRelationships_tx env rest g1 of
             (Inl e, g2) \<Rightarrow> (Inl e, g2)
           | (Inr rs, g2) \<Rightarrow> (Inr ((case r of None \<Rightarrow> [] | Some x \<Rightarrow> [x]) @ rs), g2)))"

definition createRelationships ::
  "env \<Rightarrow> jsobj list \<Rightarrow> graph \<Rightarrow> (error + jsobj list) \<times> graph" where
  "createRelationships env relationshipsData g =
     (case createRelationships_tx env relationshipsData g of
        (Inl e, g1) \<Rightarrow> (Inl e, rollback g g1)
      | (Inr rs, g1) \<Rightarrow> (Inr rs, g1))"

fun createTasks_tx :: "env \<Rightarrow> jsobj list \<Rightarrow> graph \<Rightarrow> (error + jsobj list) \<times> graph" where
  "createTasks_tx env [] g = (Inr [], g)"
| "createTasks_tx env (taskData # rest) g =
     (case createTask env taskData g of
        (Inl e, g1) \<Rightarrow> (Inl e, g1)
      | (Inr t, g1) \<Rightarrow>
          (case createTasks_tx env rest g1 of
             (Inl e, g2) \<Rightarrow> (Inl e, g2)
           | (Inr ts, g2) \<Rightarrow> (Inr (t # ts), g2)))"

definition createTasks :: "env \<Rightarrow> jsobj list \<Rightarrow> graph \<Rightarrow> (error + jsobj list) \<times> graph" where
  "createTasks env tasksData g =
     (case createTasks_tx env tasksData g of
        (Inl e, g1) \<Rightarrow> (Inl e, rollback g g1)
      | (Inr ts, g1) \<Rightarrow> (Inr ts, g1))"

subsection \<open>Comments\<close>

definition createComment :: "env \<Rightarrow> jsobj \<Rightarrow> graph \<Rightarrow> (error + jsobj) \<times> graph" where
  "createComment env commentData g =
     (case uuidv4 env g of (commentId, g1) \<Rightarrow>
      case toISOString env g1 of (now, g2) \<Rightarrow>
        (if filter (id_is (or_null (map_of commentData ''nodeId''))) (nodes g2) = []
         then (Inl (NotFoundError ''Node not found''), g2)
         else
           (case create_node [''Comment'']
                   [(''id'', JStr commentId), (''content'', or_null (map_of commentData ''content'')),
                    (''author'', js_or (map_of commentData ''author'') (JStr ''system'')),
                    (''created'', JStr now)] g2 of
              (Inl e, g3) \<Rightarrow> (Inl e, g3)
            | (Inr c, g3) \<Rightarrow>
                (Inr (spread [(''nodeId'', or_null (map_of commentData ''nodeId''))] (n_props c)),
                 create_edges ''HAS_COMMENT'' []
                   (List.product
                      (filter (id_is (or_null (map_of commentData ''nodeId''))) (nodes g3))
                      (match_nodes ''Comment'' (JStr commentId) g3)) g3))))"

definition updateComment ::
  "env \<Rightarrow> jsval \<Rightarrow> jsobj \<Rightarrow> graph \<Rightarrow> (error + jsobj option) \<times> graph" where
  "updateComment env commentId updates g =
     (case toISOString env g of (now, g1) \<Rightarrow>
      case update_nodes ''Comment'' commentId
             [(''content'', or_null (map_of updates ''content'')), (''updated'', JStr now)] g1 of
        (Inl e, g2) \<Rightarrow> (Inl e, g2)
      | (Inr ns, g2) \<Rightarrow> (Inr (first_props ns), g2))"

definition deleteComment :: "jsval \<Rightarrow> graph \<Rightarrow> bool \<times> graph" where
  "deleteComment commentId g =
     (True, detach_delete (\<lambda>n. has_label ''Comment'' n \<and> id_is commentId n) g)"


subsection \<open>The change journal: reading (\<open>ChangeHistory\<close>)\<close>

text \<open>\<open>change.beforeState ? JSON.parse(change.beforeState) : null\<close>\<close>

definition decode_state :: "jsval option \<Rightarrow> error + jsval" where
  "decode_state v =
     (case v of
        None \<Rightarrow> Inr JNull
      | Some x \<Rightarrow> (if truthy (Some x) then JSON_parse (Some x) else Inr JNull))"

definition decode_change :: "node \<Rightarrow> error + jsobj" where
  "decode_change n =
     bind (decode_state (node_prop n ''beforeState'')) (\<lambda>b.
     bind (decode_state (node_prop n ''afterState'')) (\<lambda>a.
       Inr (spread [(''beforeState'', b), (''afterState'', a)] (n_props n))))"

fun decode_changes :: "node list \<Rightarrow> error + jsobj list" where
  "decode_changes [] = Inr []"
| "decode_changes (n # ns) =
     bind (decode_change n) (\<lambda>c. bind (decode_changes ns) (\<lambda>cs. Inr (c # cs)))"

text \<open>
  The \<open>timestamp\<close> property, by which the queries order; every event that
  \<open>recordChange\<close> writes has one.
\<close>

definition timestamp_of :: "node \<Rightarrow> string" where
  "timestamp_of n = (case node_prop n ''timestamp'' of Some (JStr t) \<Rightarrow> t | _ \<Rightarrow> [])"

definition getEntityHistory :: "jsval \<Rightarrow> nat \<Rightarrow> graph \<Rightarrow> error + jsobj list" where
  "getEntityHistory entityId limit g =
     decode_changes
       (take limit (rev (sort_key timestamp_of
          (filter (\<lambda>n. if entityId = JNull then False else node_prop n ''entityId'' = Some entityId)
             (journal g)))))"

definition getRecentChanges :: "nat \<Rightarrow> jsval option \<Rightarrow> graph \<Rightarrow> error + jsobj list" where
  "getRecentChanges limit operation g =
     decode_changes
       (take limit (rev (sort_key timestamp_of
          (filter (\<lambda>n. if truthy operation then node_prop n ''operation'' = operation else True)
             (journal g)))))"

text \<open>\<open>WHERE c.timestamp >= $startTime AND c.timestamp <= $endTime\<close>, on strings.\<close>

definition in_time_range :: "string \<Rightarrow> string \<Rightarrow> node \<Rightarrow> bool" where
  "in_time_range startTime endTime n =
     (case node_prop n ''timestamp'' of
        Some (JStr t) \<Rightarrow> startTime \<le> t \<and> t \<le> endTime
      | _ \<Rightarrow> False)"

definition changes_in_range :: "string \<Rightarrow> string \<Rightarrow> nat \<Rightarrow> graph \<Rightarrow> node list" where
  "changes_in_range startTime endTime limit g =
     take limit (sort_key timestamp_of (filter (in_time_range startTime endTime) (journal g)))"

definition getChangesByTimeRange :: "string \<Rightarrow> string \<Rightarrow> nat \<Rightarrow> graph \<Rightarrow> error + jsobj list" where
  "getChangesByTimeRange startTime endTime limit g =
     decode_changes (changes_in_range startTime endTime limit g)"

subsection \<open>Replay\<close>

text \<open>
  A creation called with a value \<open>v\<close> that JSON text can hold: \<open>{...v, id: v.id || uuidv4()}\<close>
  goes to the schema. \<open>null.id\<close> throws. A number, a boolean, a string and an array have
  no \<open>id\<close>, so a uuid is drawn, and what they spread to has none of the keys that the
  schemas require, so the schema refuses it.
\<close>

definition with_object ::
  "env \<Rightarrow> jsval \<Rightarrow> (jsobj \<Rightarrow> graph \<Rightarrow> (error + 'a) \<times> graph) \<Rightarrow> graph
     \<Rightarrow> (error + 'a) \<times> graph" where
  "with_object env v create g =
     (case v of
        JObj d \<Rightarrow> create d g
      | JNull \<Rightarrow> (Inl TypeError, g)
      | _ \<Rightarrow> (Inl ZodError, snd (uuidv4 env g)))"

text \<open>An update called with something that is not an object.\<close>

definition as_object :: "jsval option \<Rightarrow> jsobj option" where
  "as_object v = (case v of Some (JObj kvs) \<Rightarrow> Some kvs | _ \<Rightarrow> None)"

definition no_value :: "(error + 'a) \<times> graph \<Rightarrow> (error + unit) \<times> graph" where
  "no_value r = (case r of (Inl e, g) \<Rightarrow> (Inl e, g) | (Inr x, g) \<Rightarrow> (Inr (), g))"

text \<open>
  \<open>replayChange\<close>: the \<open>switch\<close> on \<open>change.operation\<close>; the default case only warns. The
  \<open>afterState\<close> of a decoded change is never \<open>undefined\<close>.
\<close>

definition replayChange :: "env \<Rightarrow> jsobj \<Rightarrow> graph \<Rightarrow> (error + unit) \<times> graph" where
  "replayChange env change g =
     (if map_of change ''operation'' = Some (JStr ''CREATE_COMPONENT'') then
        no_value (with_object env (or_null (map_of change ''afterState''))
                    (\<lambda>d. createComponent env d []) g)
      else if map_of change ''operation'' = Some (JStr ''UPDATE_COMPONENT'') then
        (case as_object (map_of change ''afterState'') of
           None \<Rightarrow> (Inr (), g)
         | Some d \<Rightarrow> no_value (updateComponent (or_null (map_of change ''entityId'')) d g))
      else if map_of change ''operation'' = Some (JStr ''DELETE_COMPONENT'') then
        (Inr (), snd (deleteComponent (or_null (map_of change ''entityId'')) g))
      else if map_of change ''operation'' = Some (JStr ''CREATE_TASK'') then
        no_value (with_object env (or_null (map_of change ''afterState''))
                    (\<lambda>d. createTask env d) g)
      else if map_of change ''operation'' = Some (JStr ''UPDATE_TASK'') then
        (case as_object (map_of change ''afterState'') of
           None \<Rightarrow> (Inl TypeError, g)
         | Some d \<Rightarrow>
             no_value (updateTaskStatus (or_null (map_of change ''entityId''))
                     (or_null (map_of d ''status'')) (or_null (map_of d ''progress'')) g))
      else if map_of change ''operation'' = Some (JStr ''CREATE_RELATIONSHIP'') then
        no_value (with_object env (or_null (map_of change ''afterState''))
                    (\<lambda>d. createRelationship env d) g)
      else (Inr (), g))"

text \<open>The loop of \<open>replayToTimestamp\<close>: a failure is logged and the loop goes on.\<close>

fun replay_all :: "env \<Rightarrow> jsobj list \<Rightarrow> graph \<Rightarrow> (jsobj \<times> bool) list \<times> graph" where
  "replay_all env [] g = ([], g)"
| "replay_all env (change # rest) g =
     (case replayChange env change g of
        (r, g1) \<Rightarrow>
          (case replay_all env rest g1 of
             (entries, g2) \<Rightarrow> ((change, (case r of Inl e \<Rightarrow> False | Inr u \<Rightarrow> True)) # entries, g2)))"

definition change_summary :: "jsobj \<Rightarrow> jsobj" where
  "change_summary c =
     [(''timestamp'', or_null (map_of c ''timestamp'')),
      (''operation'', or_null (map_of c ''operation'')),
      (''entityType'', or_null (map_of c ''entityType'')),
      (''entityId'', or_null (map_of c ''entityId''))]"

datatype replay_result =
    WouldReplay "jsobj list"
  | Replayed nat "(jsobj \<times> bool) list"

definition epoch :: string where
  "epoch = ''1970-01-01T00:00:00.000Z''"

definition replayToTimestamp ::
  "env \<Rightarrow> string \<Rightarrow> bool \<Rightarrow> graph \<Rightarrow> (error + replay_result) \<times> graph" where
  "replayToTimestamp env targetTimestamp dryRun g =
     (case getChangesByTimeRange epoch targetTimestamp 1000 g of
        Inl e \<Rightarrow> (Inl e, g)
      | Inr changes \<Rightarrow>
          (if dryRun then (Inr (WouldReplay (map change_summary changes)), g)
           else
             (case replay_all env changes
                     (detach_delete (\<lambda>n. \<not> has_label ''ChangeEvent'' n) g) of
                (entries, g1) \<Rightarrow> (Inr (Replayed (length changes) entries), g1))))"

subsection \<open>Snapshots\<close>

text \<open>
  The edges that \<open>createSnapshot\<close> reads, \<open>MATCH ()-[r]->() WHERE type(r) <> "RELATES_TO"\<close>, and
  the object it makes of one: \<open>{...r.properties, type, sourceId, targetId}\<close>.
\<close>

definition captured_edges :: "graph \<Rightarrow> edge list" where
  "captured_edges g = filter (\<lambda>e. e_type e \<noteq> ''RELATES_TO'') (edges g)"

definition edge_object :: "graph \<Rightarrow> edge \<Rightarrow> jsobj" where
  "edge_object g e =
     spread
       [(''type'', JStr (e_type e)),
        (''sourceId'', or_null (map_of (neighbour_props g (e_start e)) ''id'')),
        (''targetId'', or_null (map_of (neighbour_props g (e_end e)) ''id''))]
       (e_props e)"

definition edge_json :: "graph \<Rightarrow> edge \<Rightarrow> jsval" where
  "edge_json g e = JObj (edge_object g e)"

text \<open>What \<open>createSnapshot\<close> reads from the graph: \<open>snapshot.data\<close>.\<close>

definition snapshot_data :: "graph \<Rightarrow> jsval" where
  "snapshot_data g =
     JObj [(''components'', JArr (map (\<lambda>n. JObj (n_props n)) (components g))),
           (''tasks'', JArr (map (\<lambda>n. JObj (n_props n)) (tasks g))),
           (''relationships'', JArr (map (edge_json g) (captured_edges g)))]"

definition createSnapshot ::
  "env \<Rightarrow> string \<Rightarrow> jsobj \<Rightarrow> graph \<Rightarrow> (error + jsobj) \<times> graph" where
  "createSnapshot env snapshotName metadata g =
     (case uuidv4 env g of (u, g1) \<Rightarrow>
      case toISOString env g1 of (t, g2) \<Rightarrow>
        (let snapshot =
               spread [(''data'', snapshot_data g2)]
                 (spread metadata
                    [(''id'', JStr u), (''name'', JStr snapshotName), (''timestamp'', JStr t)])
         in case create_node [''Snapshot'']
                   (spread [(''data'', JSON_stringify (snapshot_data g2))] snapshot) g2 of
              (Inl e, g3) \<Rightarrow> (Inl e, g3)
            | (Inr n, g3) \<Rightarrow> (Inr snapshot, g3)))"

text \<open>\<open>data.k\<close>: \<open>None\<close> is \<open>undefined\<close>; a property of \<open>null\<close> cannot be read.\<close>

definition field :: "jsval \<Rightarrow> string \<Rightarrow> error + jsval option" where
  "field data k =
     (case data of
        JNull \<Rightarrow> Inl TypeError
      | JObj kvs \<Rightarrow> Inr (map_of kvs k)
      | _ \<Rightarrow> Inr None)"

text \<open>\<open>v.length\<close>\<close>

definition length_of :: "jsval option \<Rightarrow> error + jsval option" where
  "length_of v =
     (case v of
        None \<Rightarrow> Inl TypeError
      | Some JNull \<Rightarrow> Inl TypeError
      | Some (JArr xs) \<Rightarrow> Inr (Some (JNum (of_nat (length xs))))
      | Some (JStr s) \<Rightarrow> Inr (Some (JNum (of_nat (length s))))
      | Some (JObj kvs) \<Rightarrow> Inr (map_of kvs ''length'')
      | Some x \<Rightarrow> Inr None)"

text \<open>
  What \<open>for (const x of v)\<close> goes through: the elements of an array, the characters of a
  string; nothing else that JSON text can hold is iterable.
\<close>

definition iterate :: "jsval option \<Rightarrow> error + jsval list" where
  "iterate v =
     (case v of
        Some (JArr xs) \<Rightarrow> Inr xs
      | Some (JStr s) \<Rightarrow> Inr (map (\<lambda>c. JStr [c]) s)
      | _ \<Rightarrow> Inl TypeError)"

text \<open>The values that a loop over \<open>data.k\<close> goes through.\<close>

definition payload_list :: "jsval \<Rightarrow> string \<Rightarrow> error + jsval list" where
  "payload_list data k = bind (field data k) iterate"

fun restore_components :: "env \<Rightarrow> jsval list \<Rightarrow> graph \<Rightarrow> (error + unit) \<times> graph" where
  "restore_components env [] g = (Inr (), g)"
| "restore_components env (component # rest) g =
     (case with_object env component (\<lambda>d. createComponent env d []) g of
        (Inl e, g1) \<Rightarrow> (Inl e, g1)
      | (Inr c, g1) \<Rightarrow> restore_components env rest g1)"

fun restore_tasks :: "env \<Rightarrow> jsval list \<Rightarrow> graph \<Rightarrow> (error + unit) \<times> graph" where
  "restore_tasks env [] g = (Inr (), g)"
| "restore_tasks env (task # rest) g =
     (case with_object env task (\<lambda>d. createTask env d) g of
        (Inl e, g1) \<Rightarrow> (Inl e, g1)
      | (Inr t, g1) \<Rightarrow> restore_tasks env rest g1)"

fun restore_relationships :: "env \<Rightarrow> jsval list \<Rightarrow> graph \<Rightarrow> (error + unit) \<times> graph" where
  "restore_relationships env [] g = (Inr (), g)"
| "restore_relationships env (relationship # rest) g =
     (case with_object env relationship (\<lambda>d. createRelationship env d) g of
        (Inl e, g1) \<Rightarrow> (Inl e, g1)
      | (Inr r, g1) \<Rightarrow> restore_relationships env rest g1)"

text \<open>
  The results of \<open>restoreFromSnapshot\<close>: the three counts. Those of a dry run are whatever
  \<open>.length\<close> gives; those of a restore are the lengths of what the loops went through.
\<close>

datatype restore_result =
    WouldRestore "jsval option" "jsval option" "jsval option"
  | Restored nat nat nat

definition dry_run :: "jsval \<Rightarrow> error + restore_result" where
  "dry_run data =
     bind (bind (field data ''components'') length_of) (\<lambda>c.
     bind (bind (field data ''tasks'') length_of) (\<lambda>t.
     bind (bind (field data ''relationships'') length_of) (\<lambda>r.
       Inr (WouldRestore c t r))))"

text \<open>
  The restore proper, on the graph already cleared: each of \<open>data.components\<close>,
  \<open>data.tasks\<close> and \<open>data.relationships\<close> is read when its loop starts.
\<close>

definition restore_all :: "env \<Rightarrow> jsval \<Rightarrow> graph \<Rightarrow> (error + restore_result) \<times> graph" where
  "restore_all env data g =
     (case payload_list data ''components'' of
        Inl e \<Rightarrow> (Inl e, g)
      | Inr cs \<Rightarrow>
          (case restore_components env cs g of
             (Inl e, g1) \<Rightarrow> (Inl e, g1)
           | (Inr u, g1) \<Rightarrow>
               (case payload_list data ''tasks'' of
                  Inl e \<Rightarrow> (Inl e, g1)
                | Inr ts \<Rightarrow>
                    (case restore_tasks env ts g1 of
                       (Inl e, g2) \<Rightarrow> (Inl e, g2)
                     | (Inr u, g2) \<Rightarrow>
                         (case payload_list data ''relationships'' of
                            Inl e \<Rightarrow> (Inl e, g2)
                          | Inr rs \<Rightarrow>
                              (case restore_relationships env rs g2 of
                                 (Inl e, g3) \<Rightarrow> (Inl e, g3)
                               | (Inr u, g3) \<Rightarrow>
                                   (Inr (Restored (length cs) (length ts) (length rs)), g3)))))))"

definition restoreFromSnapshot ::
  "env \<Rightarrow> jsval \<Rightarrow> bool \<Rightarrow> graph \<Rightarrow> (error + restore_result) \<times> graph" where
  "restoreFromSnapshot env snapshotId dryRun g =
     (case match_nodes ''Snapshot'' snapshotId g of
        [] \<Rightarrow> (Inl (NotFoundError ''Snapshot not found''), g)
      | snapshot # others \<Rightarrow>
          (case JSON_parse (node_prop snapshot ''data'') of
             Inl e \<Rightarrow> (Inl e, g)
           | Inr data \<Rightarrow>
               (if dryRun then (dry_run data, g)
                else restore_all env data
                       (detach_delete
                          (\<lambda>n. \<not> (has_label ''ChangeEvent'' n \<or> has_label ''Snapshot'' n)) g))))"


subsection \<open>The states a store can be in\<close>

datatype store_op =
    CreateComponent jsobj jsobj
  | UpdateComponent jsval jsobj
  | DeleteComponent jsval
  | CreateRelationship jsobj
  | CreateTask jsobj
  | UpdateTaskStatus jsval jsval jsval
  | CreateComponents "jsobj list" jsobj
  | CreateRelationships "jsobj list"
  | CreateTasks "jsobj list"
  | CreateComment jsobj
  | UpdateComment jsval jsobj
  | DeleteComment jsval
  | CreateSnapshot string jsobj
  | RestoreFromSnapshot jsval bool
  | ReplayToTimestamp string bool

text \<open>The graph after a call, whether it returned or threw.\<close>

fun store_step :: "env \<Rightarrow> store_op \<Rightarrow> graph \<Rightarrow> graph" where
  "store_step env (CreateComponent d md) g = snd (createComponent env d md g)"
| "store_step env (UpdateComponent i u) g = snd (updateComponent i u g)"
| "store_step env (DeleteComponent i) g = snd (deleteComponent i g)"
| "store_step env (CreateRelationship d) g = snd (createRelationship env d g)"
| "store_step env (CreateTask d) g = snd (createTask env d g)"
| "store_step env (UpdateTaskStatus i s p) g = snd (updateTaskStatus i s p g)"
| "store_step env (CreateComponents ds md) g = snd (createComponents env ds md g)"
| "store_step env (CreateRelationships ds) g = snd (createRelationships env ds g)"
| "store_step env (CreateTasks ds) g = snd (createTasks env ds g)"
| "store_step env (CreateComment d) g = snd (createComment env d g)"
| "store_step env (UpdateComment i u) g = snd (updateComment env i u g)"
| "store_step env (DeleteComment i) g = snd (deleteComment i g)"
| "store_step env (CreateSnapshot name md) g = snd (createSnapshot env name md g)"
| "store_step env (RestoreFromSnapshot i dry) g = snd (restoreFromSnapshot env i dry g)"
| "store_step env (ReplayToTimestamp t dry) g = snd (replayToTimestamp env t dry g)"

inductive reachable_graph :: "graph \<Rightarrow> bool" where
  reachable_empty: "reachable_graph empty_graph"
| reachable_store_step: "reachable_graph g \<Longrightarrow> reachable_graph (store_step env op g)"

text \<open>
  The label sets the code creates nodes with, and the invariant of the reachable graphs:
  keys are fresh, and no node at the comment end of a HAS_COMMENT edge or at the task end
  of a RELATES_TO edge is a component.
\<close>

definition labels_ok :: "string list \<Rightarrow> bool" where
  "labels_ok ls =
     (ls = [''Task''] \<or> ls = [''Comment''] \<or> ls = [''ChangeEvent''] \<or> ls = [''Snapshot'']
      \<or> (\<exists>t \<in> set ComponentType. ls = [''Component'', t]))"

definition edge_ok :: "graph \<Rightarrow> edge \<Rightarrow> bool" where
  "edge_ok g e =
     (e_start e < next_key g \<and> e_end e < next_key g
      \<and> (e_type e = ''HAS_COMMENT'' \<longrightarrow>
            (\<forall>n \<in> set (nodes g). n_key n = e_end e \<longrightarrow> \<not> has_label ''Component'' n))
      \<and> (e_type e = ''RELATES_TO'' \<longrightarrow>
            (\<forall>n \<in> set (nodes g). n_key n = e_start e \<longrightarrow> \<not> has_label ''Component'' n)))"

definition graph_inv :: "graph \<Rightarrow> bool" where
  "graph_inv g \<longleftrightarrow>
     distinct (map n_key (nodes g))
     \<and> (\<forall>n \<in> set (nodes g). n_key n < next_key g \<and> labels_ok (n_labels n))
     \<and> (\<forall>e \<in> set (edges g). edge_ok g e)"

text \<open>The kinds of the edges in a list of rows.\<close>

definition row_kinds :: "relationship_row list \<Rightarrow> string list" where
  "row_kinds rows = map (\<lambda>r. e_type (row_edge r)) rows"

text \<open>The rows that a call returned; none when it threw.\<close>

definition returned_rows :: "error + relationship_row list \<Rightarrow> relationship_row list" where
  "returned_rows r = (case r of Inl e \<Rightarrow> [] | Inr rows \<Rightarrow> rows)"






text \<open>
  From one graph to a later one, nodes were only added, with keys that were new, and the
  edges are the same.
\<close>

definition added_nodes :: "graph \<Rightarrow> graph \<Rightarrow> bool" where
  "added_nodes g g' \<longleftrightarrow>
     take (length (nodes g)) (nodes g') = nodes g
     \<and> list_all (\<lambda>n. next_key g \<le> n_key n) (drop (length (nodes g)) (nodes g'))
     \<and> next_key g \<le> next_key g' \<and> edges g' = edges g"

subsection \<open>Example graphs\<close>

text \<open>An environment: the \<open>n\<close>-th uuid and the \<open>n\<close>-th reading of the clock.\<close>

definition example_env :: env where
  "example_env =
     \<lparr>uuids = (\<lambda>n. ''00000000-0000-4000-8000-0000000000'' @ digits (10 + n)),
      clock = (\<lambda>n. ''2025-07-20T10:00:00.0'' @ digits (10 + n) @ ''Z'')\<rparr>"

definition journal_operations :: "graph \<Rightarrow> jsval option list" where
  "journal_operations g = map (\<lambda>n. node_prop n ''operation'') (journal g)"

text \<open>Scenario S1: a component is created, then updated, then deleted.\<close>

definition s1_id :: jsval where
  "s1_id = JStr ''00000000-0000-4000-8000-000000000010''"

definition s1_created :: graph where
  "s1_created =
     snd (createComponent example_env [(''type'', JStr ''FILE''), (''name'', JStr ''a.js'')] []
            empty_graph)"

definition s1_updated :: graph where
  "s1_updated = snd (updateComponent s1_id [(''description'', JStr ''root'')] s1_created)"

definition s1_deleted :: graph where
  "s1_deleted = snd (deleteComponent s1_id s1_updated)"

text \<open>A task for the component of S1.\<close>

definition task_id_example :: jsval where
  "task_id_example = JStr ''00000000-0000-4000-8000-000000000012''"

definition with_task :: graph where
  "with_task =
     snd (createTask example_env
            [(''name'', JStr ''write tests''), (''status'', JStr ''TODO''),
             (''relatedComponentIds'', JArr [s1_id])] s1_created)"

text \<open>The states of a list of decoded journal entries.\<close>

definition before_states :: "error + jsobj list \<Rightarrow> jsval option list" where
  "before_states r = (case r of Inl e \<Rightarrow> [] | Inr cs \<Rightarrow> map (\<lambda>c. map_of c ''beforeState'') cs)"

text \<open>A snapshot of the graph with the task.\<close>

definition with_snapshot :: graph where
  "with_snapshot = snd (createSnapshot example_env ''before refactoring'' [] with_task)"

definition snapshot_id_example :: jsval where
  "snapshot_id_example = JStr ''00000000-0000-4000-8000-000000000013''"

definition example_payload :: jsval where
  "example_payload =
     (case JSON_parse (node_prop (hd (snapshots with_snapshot)) ''data'') of
        Inl e \<Rightarrow> JNull
      | Inr data \<Rightarrow> data)"

definition example_payload_components :: "jsval list" where
  "example_payload_components =
     (case payload_list example_payload ''components'' of Inl e \<Rightarrow> [] | Inr cs \<Rightarrow> cs)"

text \<open>
  Scenario S2 with a task: a file F that contains a class K, a comment on F and a task
  related to F.
\<close>

definition f_id :: jsval where
  "f_id = JStr ''11111111-1111-4111-8111-111111111111''"

definition k_id :: jsval where
  "k_id = JStr ''22222222-2222-4222-8222-222222222222''"

definition s2_graph :: graph where
  "s2_graph =
     store_step example_env
       (CreateTask [(''name'', JStr ''review''), (''status'', JStr ''TODO''),
                    (''relatedComponentIds'', JArr [f_id])])
       (store_step example_env
          (CreateComment [(''nodeId'', f_id), (''content'', JStr ''hi''), (''author'', JStr ''u'')])
          (store_step example_env
             (CreateRelationship [(''type'', JStr ''CONTAINS''), (''sourceId'', f_id),
                                  (''targetId'', k_id)])
             (store_step example_env
                (CreateComponent [(''id'', k_id), (''type'', JStr ''CLASS''), (''name'', JStr ''K'')] [])
                (store_step example_env
                   (CreateComponent [(''id'', f_id), (''type'', JStr ''FILE''), (''name'', JStr ''f'')] [])
                   empty_graph))))"

text \<open>
  A journal of 1001 entries, one a second from 10:00:00 on 20 July 2025, as 1001 calls of
  \<open>createComponent\<close> leave it.
\<close>

definition two_digits :: "nat \<Rightarrow> string" where
  "two_digits n = [char_of (48 + n div 10), char_of (48 + n mod 10)]"

definition numbered_time :: "nat \<Rightarrow> string" where
  "numbered_time i =
     ''2025-07-20T10:'' @ two_digits (i div 60) @ '':'' @ two_digits (i mod 60) @ ''.000Z''"

definition numbered_event :: "nat \<Rightarrow> node" where
  "numbered_event i =
     \<lparr>n_key = i, n_labels = [''ChangeEvent''],
      n_props =
        [(''id'', JStr (''event-'' @ digits i)), (''operation'', JStr ''CREATE_COMPONENT''),
         (''entityType'', JStr ''COMPONENT''), (''entityId'', JStr (''component-'' @ digits i)),
         (''beforeState'', JJson (JObj [])),
         (''afterState'', JJson (JObj [(''id'', JStr (''component-'' @ digits i))])),
         (''timestamp'', JStr (numbered_time i)), (''sessionId'', JStr ''anonymous''),
         (''userId'', JStr ''system''), (''source'', JStr ''mcp-server'')]\<rparr>"

definition crowded_graph :: graph where
  "crowded_graph =
     \<lparr>nodes = map numbered_event [0 ..< 1001], edges = [], next_key = 1001,
      uuid_calls = 2002, clock_calls = 1001\<rparr>"

definition crowded_target :: string where
  "crowded_target = ''2025-07-21T00:00:00.000Z''"

definition would_replay_count :: "error + replay_result \<Rightarrow> nat option" where
  "would_replay_count r =
     (case r of Inr (WouldReplay cs) \<Rightarrow> Some (length cs) | _ \<Rightarrow> None)"

text \<open>The latest snapshot of a graph: its id, what its data parses to, the keys of that.\<close>

definition last_snapshot_id :: "graph \<Rightarrow> jsval" where
  "last_snapshot_id g = or_null (node_prop (last (snapshots g)) ''id'')"

definition last_payload :: "graph \<Rightarrow> jsval" where
  "last_payload g =
     (case JSON_parse (node_prop (last (snapshots g)) ''data'') of
        Inl e \<Rightarrow> JNull
      | Inr data \<Rightarrow> data)"


definition payload_components :: "jsval \<Rightarrow> jsval list" where
  "payload_components data =
     (case payload_list data ''components'' of Inl e \<Rightarrow> [] | Inr cs \<Rightarrow> cs)"

text \<open>
  The component of S1 is given the empty name by \<open>updateComponent\<close>, which checks
  nothing, and a snapshot is taken.
\<close>

definition unnamed_snapshot :: graph where
  "unnamed_snapshot =
     snd (createSnapshot example_env ''s'' []
            (snd (updateComponent s1_id [(''name'', JStr [])] s1_created)))"

text \<open>
  A restore of the latest snapshot of a graph, with what it does to the journal: the
  number of components in the payload, the result, and whether the journal is as it was.
\<close>

definition journal_report :: "env \<Rightarrow> graph \<Rightarrow> nat \<times> (error + restore_result) \<times> bool" where
  "journal_report env g =
     (let r = restoreFromSnapshot env (last_snapshot_id g) False g
      in (length (payload_components (last_payload g)), fst r, journal (snd r) = journal g))"











section \<open>Properties of the command queue\<close>

lemma addToHistory_fields [simp]:
  "pendingCommands (addToHistory now act ag d q) = pendingCommands q"
  "waitingAgents (addToHistory now act ag d q) = waitingAgents q"
  "promises (addToHistory now act ag d q) = promises q"
  by (simp_all add: addToHistory_def Let_def)

lemma settle_fields [simp]:
  "pendingCommands (settle h r q) = pendingCommands q"
  "waitingAgents (settle h r q) = waitingAgents q"
  "commandHistory (settle h r q) = commandHistory q"
  by (simp_all add: settle_def)

lemma first_matching_command_split:
  "list_all (\<lambda>p. \<not> commandMatchesFilters (snd p) f) pre \<Longrightarrow> commandMatchesFilters c f \<Longrightarrow>
   first_matching_command (pre @ (k, c) # post) f = Some c"
  by (induction pre) auto

lemma first_matching_command_None:
  "first_matching_command m f = None \<longleftrightarrow> list_all (\<lambda>p. \<not> commandMatchesFilters (snd p) f) m"
  by (induction m) (auto split: if_splits)

text \<open>
  Claim C2, as the code has it: \<open>waitForCommand\<close> takes the first pending command, in the
  queue's insertion order, that matches the filters, whatever the priorities are: when no
  command queued before \<open>c\<close> matches and \<open>c\<close> does, the wait is resolved with \<open>c\<close>,
  \<open>c\<close> leaves the queue and no agent is registered.
\<close>

theorem waitForCommand_takes_first_match:
  assumes "pendingCommands q = pre @ (k, c) # post"
    and "list_all (\<lambda>p. \<not> commandMatchesFilters (snd p) f) pre"
    and "commandMatchesFilters c f"
  shows "findMatchingPendingCommand q f = Some c
    \<and> promises (snd (waitForCommand now agentId timeout f q)) =
        promises q @ [(agentId, Some (Resolved c))]
    \<and> pendingCommands (snd (waitForCommand now agentId timeout f q)) =
        map_delete (cmd_id c) (pendingCommands q)
    \<and> waitingAgents (snd (waitForCommand now agentId timeout f q)) = waitingAgents q"
proof -
  have m: "findMatchingPendingCommand q f = Some c"
    using assms by (simp add: findMatchingPendingCommand_def first_matching_command_split)
  then show ?thesis
    by (simp add: waitForCommand_def Let_def)
qed

lemma wp_inv_remove:
  assumes inv: "wp_inv W P" and look: "map_of W a = Some w"
  shows "wp_inv (AList.delete a W) (P[w_handle w := (fst (P ! w_handle w), Some r)])"
proof -
  have d: "distinct (map fst W)" using inv by (simp add: wp_inv_def)
  have mem: "(a, w) \<in> set W" using look by (rule map_of_SomeD)
  have uniq: "\<And>w'. (a, w') \<in> set W \<Longrightarrow> w' = w"
    using d look by (metis map_of_is_SomeI option.inject)
  have own: "\<And>a' w'. (a', w') \<in> set W \<Longrightarrow> w_handle w' < length P \<and> P ! w_handle w' = (a', None)"
    using inv by (auto simp: wp_inv_def)
  have cover: "\<And>h. h < length P \<Longrightarrow> snd (P ! h) = None \<Longrightarrow>
      \<exists>w'. (fst (P ! h), w') \<in> set W \<and> w_handle w' = h"
    using inv by (auto simp: wp_inv_def)
  have 1: "distinct (map fst (AList.delete a W))"
    using d by (rule distinct_delete)
  have 2: "w_handle w' < length (P[w_handle w := (fst (P ! w_handle w), Some r)])
         \<and> P[w_handle w := (fst (P ! w_handle w), Some r)] ! w_handle w' = (a', None)"
    if "(a', w') \<in> set (AList.delete a W)" for a' w'
  proof -
    from that have ne: "a' \<noteq> a" and m': "(a', w') \<in> set W"
      by (auto simp: AList.delete_eq)
    have "w_handle w' \<noteq> w_handle w"
      using own[OF m'] own[OF mem] ne by auto
    then show ?thesis using own[OF m'] by simp
  qed
  have 3: "\<exists>w'. (fst (P[w_handle w := (fst (P ! w_handle w), Some r)] ! h), w') \<in> set (AList.delete a W)
            \<and> w_handle w' = h"
    if hl: "h < length (P[w_handle w := (fst (P ! w_handle w), Some r)])"
      and hn: "snd (P[w_handle w := (fst (P ! w_handle w), Some r)] ! h) = None" for h
  proof -
    have ne: "h \<noteq> w_handle w"
      using hl hn by (cases "h = w_handle w") auto
    then have same: "P[w_handle w := (fst (P ! w_handle w), Some r)] ! h = P ! h" by simp
    from hl hn same obtain w' where w': "(fst (P ! h), w') \<in> set W" "w_handle w' = h"
      using cover[of h] by auto
    have "fst (P ! h) \<noteq> a"
    proof
      assume "fst (P ! h) = a"
      then have "w' = w" using w' uniq by simp
      then show False using w' ne by simp
    qed
    then have "(fst (P ! h), w') \<in> set (AList.delete a W)"
      using w' by (auto simp: AList.delete_eq)
    then show ?thesis using w' same by auto
  qed
  show ?thesis
    unfolding wp_inv_def using 1 2 3 by blast
qed

lemma update_absent: "map_of W a = None \<Longrightarrow> AList.update a w W = W @ [(a, w)]"
  by (induction W) (auto split: if_splits)

lemma wp_inv_add:
  assumes inv: "wp_inv W P" and fresh: "map_of W a = None" and h: "w_handle w = length P"
  shows "wp_inv (AList.update a w W) (P @ [(a, None)])"
proof -
  have upd: "AList.update a w W = W @ [(a, w)]" using fresh by (rule update_absent)
  have notin: "a \<notin> fst ` set W" using fresh by (simp add: map_of_eq_None_iff)
  have d: "distinct (map fst W)" using inv by (simp add: wp_inv_def)
  have own: "\<And>a' w'. (a', w') \<in> set W \<Longrightarrow> w_handle w' < length P \<and> P ! w_handle w' = (a', None)"
    using inv by (auto simp: wp_inv_def)
  have cover: "\<And>h. h < length P \<Longrightarrow> snd (P ! h) = None \<Longrightarrow>
      \<exists>w'. (fst (P ! h), w') \<in> set W \<and> w_handle w' = h"
    using inv by (auto simp: wp_inv_def)
  have 1: "distinct (map fst (W @ [(a, w)]))" using d notin by simp
  have 2: "w_handle w' < length (P @ [(a, None)]) \<and> (P @ [(a, None)]) ! w_handle w' = (a', None)"
    if "(a', w') \<in> set (W @ [(a, w)])" for a' w'
  proof (cases "(a', w') \<in> set W")
    case True
    then show ?thesis using own[OF True] by (simp add: nth_append)
  next
    case False
    then have "a' = a" "w' = w" using that by auto
    then show ?thesis using h by simp
  qed
  have 3: "\<exists>w'. (fst ((P @ [(a, None)]) ! k), w') \<in> set (W @ [(a, w)]) \<and> w_handle w' = k"
    if "k < length (P @ [(a, None)])" and "snd ((P @ [(a, None)]) ! k) = None" for k
  proof (cases "k < length P")
    case True
    then show ?thesis using that cover[of k] by (auto simp: nth_append)
  next
    case False
    then have "k = length P" using that by simp
    then show ?thesis using h by auto
  qed
  show ?thesis unfolding upd wp_inv_def using 1 2 3 by blast
qed

lemma wp_inv_settled_promise:
  assumes inv: "wp_inv W P"
  shows "wp_inv W (P @ [(a, Some r)])"
proof -
  have own: "\<And>a' w'. (a', w') \<in> set W \<Longrightarrow> w_handle w' < length P \<and> P ! w_handle w' = (a', None)"
    using inv by (auto simp: wp_inv_def)
  have cover: "\<And>h. h < length P \<Longrightarrow> snd (P ! h) = None \<Longrightarrow>
      \<exists>w'. (fst (P ! h), w') \<in> set W \<and> w_handle w' = h"
    using inv by (auto simp: wp_inv_def)
  have 1: "distinct (map fst W)" using inv by (simp add: wp_inv_def)
  have 2: "w_handle w' < length (P @ [(a, Some r)]) \<and> (P @ [(a, Some r)]) ! w_handle w' = (a', None)"
    if "(a', w') \<in> set W" for a' w'
    using own[OF that] by (simp add: nth_append)
  have 3: "\<exists>w'. (fst ((P @ [(a, Some r)]) ! k), w') \<in> set W \<and> w_handle w' = k"
    if "k < length (P @ [(a, Some r)])" and "snd ((P @ [(a, Some r)]) ! k) = None" for k
  proof (cases "k < length P")
    case True
    then show ?thesis using that cover[of k] by (auto simp: nth_append)
  next
    case False
    then have "k = length P" using that by simp
    then show ?thesis using that by simp
  qed
  show ?thesis unfolding wp_inv_def using 1 2 3 by blast
qed

lemma queue_inv_addToHistory [simp]:
  "queue_inv (addToHistory now act ag d q) = queue_inv q"
  by (simp add: queue_inv_def)

lemma queue_inv_pending [simp]:
  "queue_inv (q\<lparr>pendingCommands := m\<rparr>) = queue_inv q"
  by (simp add: queue_inv_def)

lemma settle_registered:
  assumes "queue_inv q" and "map_of (waitingAgents q) a = Some w"
  shows "promises (settle (w_handle w) r q) = (promises q)[w_handle w := (a, Some r)]"
proof -
  have "(a, w) \<in> set (waitingAgents q)" using assms(2) by (rule map_of_SomeD)
  then have "w_handle w < length (promises q) \<and> promises q ! w_handle w = (a, None)"
    using assms(1) by (auto simp: queue_inv_def wp_inv_def)
  then show ?thesis by (simp add: settle_def)
qed

lemma queue_inv_remove:
  assumes "queue_inv q" and "map_of (waitingAgents q) a = Some w"
  shows "queue_inv (settle (w_handle w) r (q\<lparr>waitingAgents := map_delete a (waitingAgents q)\<rparr>))"
proof -
  have "(a, w) \<in> set (waitingAgents q)" using assms(2) by (rule map_of_SomeD)
  then have own: "w_handle w < length (promises q) \<and> promises q ! w_handle w = (a, None)"
    using assms(1) by (auto simp: queue_inv_def wp_inv_def)
  have "wp_inv (AList.delete a (waitingAgents q))
          ((promises q)[w_handle w := (fst (promises q ! w_handle w), Some r)])"
    using assms by (simp add: queue_inv_def wp_inv_remove)
  then show ?thesis using own
    by (simp add: queue_inv_def settle_def map_delete_def)
qed

lemma settle_addToHistory:
  "settle h r (addToHistory now act ag d q) = addToHistory now act ag d (settle h r q)"
  by (simp add: settle_def addToHistory_def Let_def)

lemma queue_inv_agent_reject:
  assumes "queue_inv q" and "map_of (waitingAgents q) a = Some w"
  shows "queue_inv (agent_reject now a w msg q)"
proof -
  have "queue_inv (settle (w_handle w) (Rejected msg)
          (q\<lparr>waitingAgents := map_delete a (waitingAgents q)\<rparr>))"
    using assms by (rule queue_inv_remove)
  then show ?thesis
    by (simp add: agent_reject_def settle_addToHistory)
qed

lemma queue_inv_agent_resolve:
  assumes "queue_inv q" and "map_of (waitingAgents q) a = Some w"
  shows "queue_inv (agent_resolve now a w c q)"
proof -
  have "queue_inv (settle (w_handle w) (Resolved c)
          (q\<lparr>waitingAgents := map_delete a (waitingAgents q)\<rparr>))"
    using assms by (rule queue_inv_remove)
  then show ?thesis
    by (simp add: agent_resolve_def settle_addToHistory)
qed

lemma agent_reject_absent:
  "map_of (waitingAgents (agent_reject now a w msg q)) a = None"
  by (simp add: agent_reject_def map_delete_def map_of_eq_None_iff AList.delete_eq image_iff)

lemma queue_inv_waitForCommand:
  assumes "queue_inv q"
  shows "queue_inv (snd (waitForCommand now a t f q))"
proof (cases "findMatchingPendingCommand q f")
  case (Some c)
  have "wp_inv (waitingAgents q) (promises q @ [(a, Some (Resolved c))])"
    using assms by (simp add: queue_inv_def wp_inv_settled_promise)
  then show ?thesis using Some
    by (simp add: waitForCommand_def Let_def queue_inv_def)
next
  case None
  define q1 where "q1 = (case map_of (waitingAgents q) a of
      Some existing \<Rightarrow> agent_reject now a existing superseded_message q | None \<Rightarrow> q)"
  have i1: "queue_inv q1"
    using assms by (auto simp: q1_def queue_inv_agent_reject split: option.splits)
  have fresh: "map_of (waitingAgents q1) a = None"
    by (auto simp: q1_def agent_reject_absent split: option.splits)
  have "wp_inv (AList.update a \<lparr>w_handle = length (promises q1), w_filters = f, w_timeout = t,
                    w_startedAt = now\<rparr> (waitingAgents q1)) (promises q1 @ [(a, None)])"
    using i1 fresh by (simp add: queue_inv_def wp_inv_add)
  then show ?thesis using None
    by (simp add: waitForCommand_def Let_def queue_inv_def map_set_def q1_def)
qed

lemma first_matching_agent_Some:
  "first_matching_agent W c = Some a \<Longrightarrow> \<exists>w. map_of W a = Some w"
  by (induction W) (auto split: if_splits)

lemma queue_inv_sendCommand:
  assumes "queue_inv q"
  shows "queue_inv (snd (sendCommand now gen c q))"
  using assms
  by (auto simp: sendCommand_def Let_def queue_inv_agent_resolve split: option.splits)

lemma queue_inv_cancelCommand:
  "queue_inv q \<Longrightarrow> queue_inv (snd (cancelCommand now k q))"
  by (auto simp: cancelCommand_def split: option.splits)

lemma queue_inv_cancelWait:
  "queue_inv q \<Longrightarrow> queue_inv (snd (cancelWait now a q))"
  by (auto simp: cancelWait_def queue_inv_agent_reject split: option.splits)

lemma queue_inv_timer_fires:
  "queue_inv q \<Longrightarrow> queue_inv (timer_fires a q)"
  by (auto simp: timer_fires_def queue_inv_remove split: option.splits)

lemma queue_inv_new: "queue_inv new_CommandQueue"
  by (simp add: queue_inv_def wp_inv_def new_CommandQueue_def)

lemma reachable_queue_inv: "reachable q \<Longrightarrow> queue_inv q"
proof (induction rule: reachable.induct)
  case reachable_new
  show ?case by (rule queue_inv_new)
next
  case (reachable_step q now e)
  then show ?case
    by (cases e)
       (simp_all add: queue_inv_waitForCommand queue_inv_sendCommand queue_inv_cancelCommand
          queue_inv_cancelWait queue_inv_timer_fires)
qed

lemma active_waits_at_most_one:
  assumes "queue_inv q"
  shows "length (active_waits q a) \<le> 1"
proof -
  have dist: "distinct (active_waits q a)" by (simp add: active_waits_def)
  have same: "h1 = h2" if "h1 \<in> set (active_waits q a)" "h2 \<in> set (active_waits q a)" for h1 h2
  proof -
    from that have p: "h1 < length (promises q)" "promises q ! h1 = (a, None)"
      "h2 < length (promises q)" "promises q ! h2 = (a, None)"
      by (auto simp: active_waits_def)
    from p assms obtain w1 where w1: "(a, w1) \<in> set (waitingAgents q)" "w_handle w1 = h1"
      unfolding queue_inv_def wp_inv_def by (metis fst_conv snd_conv)
    from p assms obtain w2 where w2: "(a, w2) \<in> set (waitingAgents q)" "w_handle w2 = h2"
      unfolding queue_inv_def wp_inv_def by (metis fst_conv snd_conv)
    have "distinct (map fst (waitingAgents q))" using assms by (simp add: queue_inv_def wp_inv_def)
    then have "w1 = w2" using w1 w2 by (metis map_of_is_SomeI option.inject)
    then show ?thesis using w1 w2 by simp
  qed
  show ?thesis
  proof (cases "active_waits q a")
    case Nil
    then show ?thesis by simp
  next
    case (Cons h hs)
    have "hs = []"
    proof (cases hs)
      case Nil
      then show ?thesis .
    next
      case (Cons h' hs')
      then have "h' = h" using same[of h' h] \<open>active_waits q a = h # hs\<close> by simp
      then show ?thesis using dist \<open>active_waits q a = h # hs\<close> Cons by simp
    qed
    then show ?thesis using Cons by simp
  qed
qed

lemma active_wait_registered:
  assumes "queue_inv q" and "h \<in> set (active_waits q a)"
  shows "\<exists>w. map_of (waitingAgents q) a = Some w \<and> w_handle w = h"
proof -
  from assms(2) have p: "h < length (promises q)" "promises q ! h = (a, None)"
    by (auto simp: active_waits_def)
  with assms(1) obtain w where w: "(a, w) \<in> set (waitingAgents q)" "w_handle w = h"
    unfolding queue_inv_def wp_inv_def by (metis fst_conv snd_conv)
  have "distinct (map fst (waitingAgents q))" using assms(1) by (simp add: queue_inv_def wp_inv_def)
  then have "map_of (waitingAgents q) a = Some w" using w by simp
  then show ?thesis using w by blast
qed

lemma superseded_not_timeout: "superseded_message \<noteq> timeout_message t"
  by (simp add: superseded_message_def timeout_message_def)

lemma cancelled_not_timeout: "cancelled_message \<noteq> timeout_message t"
  by (simp add: cancelled_message_def timeout_message_def)

lemma addToHistory_length: "length (commandHistory (addToHistory now act ag d q)) \<le> maxHistorySize"
  by (auto simp: addToHistory_def Let_def maxHistorySize_def)

lemma settle_promises:
  "promises (settle h r q) =
     (if h < length (promises q) \<and> snd (promises q ! h) = None
      then (promises q)[h := (fst (promises q ! h), Some r)] else promises q)"
  by (simp add: settle_def)

lemma addToHistory_last:
  "commandHistory (addToHistory now act ag d q) \<noteq> [] \<and>
   last (commandHistory (addToHistory now act ag d q)) =
     \<lparr>h_timestamp = now, h_action = act, h_agentId = ag, h_data = d\<rparr>"
  by (simp add: addToHistory_def Let_def maxHistorySize_def)

lemma addToHistory_keeps_last:
  assumes "commandHistory q \<noteq> []" and "length (commandHistory q) \<le> maxHistorySize"
  shows "last (commandHistory q) \<in> set (commandHistory (addToHistory now act ag d q))"
proof -
  let ?H = "commandHistory q"
  let ?e = "\<lparr>h_timestamp = now, h_action = act, h_agentId = ag, h_data = d\<rparr>"
  show ?thesis
  proof (cases "length (?H @ [?e]) > maxHistorySize")
    case False
    then show ?thesis using assms by (simp add: addToHistory_def Let_def)
  next
    case True
    then have len: "length ?H = maxHistorySize" using assms by simp
    then have "length ?H \<ge> 2" by (simp add: maxHistorySize_def)
    then obtain x y ys where "?H = x # y # ys"
      by (metis One_nat_def Suc_1 Suc_le_length_iff)
    then show ?thesis using True len
      by (simp add: addToHistory_def Let_def)
  qed
qed

lemma waitForCommand_supersedes:
  assumes inv: "queue_inv q"
    and act: "h \<in> set (active_waits q a)"
    and nomatch: "findMatchingPendingCommand q f = None"
  shows "promises (snd (waitForCommand now a t f q)) =
           (promises q)[h := (a, Some (Rejected superseded_message))] @ [(a, None)]"
    and "\<lparr>h_timestamp = now, h_action = WAIT_FAILED, h_agentId = Some a,
          h_data = HError superseded_message\<rparr>
         \<in> set (commandHistory (snd (waitForCommand now a t f q)))"
proof -
  from active_wait_registered[OF inv act] obtain w
    where w: "map_of (waitingAgents q) a = Some w" "w_handle w = h" by blast
  have pr: "promises (agent_reject now a w superseded_message q) =
            (promises q)[h := (a, Some (Rejected superseded_message))]"
    using act w(2)
    by (simp add: agent_reject_def settle_addToHistory settle_promises active_waits_def)
  show "promises (snd (waitForCommand now a t f q)) =
           (promises q)[h := (a, Some (Rejected superseded_message))] @ [(a, None)]"
    using nomatch w pr by (simp add: waitForCommand_def Let_def)
  let ?q0 = "addToHistory now WAIT_FAILED (Some a) (HError superseded_message)
               (q\<lparr>waitingAgents := map_delete a (waitingAgents q)\<rparr>)"
  have h1: "commandHistory (agent_reject now a w superseded_message q) = commandHistory ?q0"
    by (simp add: agent_reject_def)
  have "last (commandHistory ?q0) \<in> set (commandHistory
          (addToHistory now WAIT_STARTED (Some a) (HWait f t) q2))"
    if "commandHistory q2 = commandHistory ?q0" for q2
    using addToHistory_keeps_last[of q2] that addToHistory_last[of now WAIT_FAILED "Some a" "HError superseded_message" "q\<lparr>waitingAgents := map_delete a (waitingAgents q)\<rparr>"]
      addToHistory_length[of now WAIT_FAILED "Some a" "HError superseded_message" "q\<lparr>waitingAgents := map_delete a (waitingAgents q)\<rparr>"]
    by simp
  then show "\<lparr>h_timestamp = now, h_action = WAIT_FAILED, h_agentId = Some a,
          h_data = HError superseded_message\<rparr>
         \<in> set (commandHistory (snd (waitForCommand now a t f q)))"
    using nomatch w h1 addToHistory_last[of now WAIT_FAILED "Some a" "HError superseded_message" "q\<lparr>waitingAgents := map_delete a (waitingAgents q)\<rparr>"]
    by (simp add: waitForCommand_def Let_def)
qed

lemmas queue_eval =
  sendCommand_def waitForCommand_def findMatchingPendingCommand_def findMatchingWaitingAgent_def
  new_CommandQueue_def addToHistory_def map_set_def map_delete_def commandMatchesFilters_def
  maxHistorySize_def Let_def agent_reject_def agent_resolve_def settle_def active_waits_def
  AList.delete_eq

text \<open>
  Claim C2 as stated fails on scenario S4: after LOW, URGENT and MEDIUM are queued, three
  unfiltered waits receive LOW, URGENT and MEDIUM, in the order of queueing.
\<close>

theorem priority_order_counterexample:
  "map received_priority (promises s4_three_waits) = [Some ''LOW'', Some ''URGENT'', Some ''MEDIUM'']"
  by (simp add: s4_three_waits_def s4_queue_def example_command_def no_filters_def queue_eval)

text \<open>
  On the queue of S4, a wait that asks for priority HIGH or more passes over the LOW
  command, which was queued first, and takes the URGENT one.
\<close>

theorem waitForCommand_takes_first_match_witness:
  "pendingCommands s4_queue =
     [(''cmd_1'', (example_command ''LOW'' None)\<lparr>cmd_id := ''cmd_1'', cmd_timestamp := 1\<rparr>)] @
       (''cmd_2'', (example_command ''URGENT'' None)\<lparr>cmd_id := ''cmd_2'', cmd_timestamp := 2\<rparr>) #
       [(''cmd_3'', (example_command ''MEDIUM'' None)\<lparr>cmd_id := ''cmd_3'', cmd_timestamp := 3\<rparr>)]
   \<and> findMatchingPendingCommand s4_queue high_only =
        Some ((example_command ''URGENT'' None)\<lparr>cmd_id := ''cmd_2'', cmd_timestamp := 2\<rparr>)
   \<and> promises (snd (waitForCommand 4 ''A'' 300000 high_only s4_queue)) =
        [(''A'', Some (Resolved ((example_command ''URGENT'' None)\<lparr>cmd_id := ''cmd_2'', cmd_timestamp := 2\<rparr>)))]
   \<and> map fst (pendingCommands (snd (waitForCommand 4 ''A'' 300000 high_only s4_queue))) =
        [''cmd_1'', ''cmd_3'']"
proof -
  have p: "pendingCommands s4_queue =
     [(''cmd_1'', (example_command ''LOW'' None)\<lparr>cmd_id := ''cmd_1'', cmd_timestamp := 1\<rparr>)] @
       (''cmd_2'', (example_command ''URGENT'' None)\<lparr>cmd_id := ''cmd_2'', cmd_timestamp := 2\<rparr>) #
       [(''cmd_3'', (example_command ''MEDIUM'' None)\<lparr>cmd_id := ''cmd_3'', cmd_timestamp := 3\<rparr>)]"
    by (simp add: s4_queue_def example_command_def queue_eval)
  have n: "list_all (\<lambda>p. \<not> commandMatchesFilters (snd p) high_only)
             [(''cmd_1'', (example_command ''LOW'' None)\<lparr>cmd_id := ''cmd_1'', cmd_timestamp := 1\<rparr>)]"
    by (simp add: commandMatchesFilters_def high_only_def example_command_def priority_level_def
          priorityLevels_def)
  have m: "commandMatchesFilters
             ((example_command ''URGENT'' None)\<lparr>cmd_id := ''cmd_2'', cmd_timestamp := 2\<rparr>) high_only"
    by (simp add: commandMatchesFilters_def high_only_def example_command_def priority_level_def
          priorityLevels_def)
  have e: "promises s4_queue = []"
    by (simp add: s4_queue_def example_command_def queue_eval)
  have d: "map fst (map_delete ''cmd_2'' (pendingCommands s4_queue)) = [''cmd_1'', ''cmd_3'']"
    by (simp add: p map_delete_def AList.delete_eq)
  show ?thesis
    using waitForCommand_takes_first_match [OF p n m, of 4 "''A''" 300000] p e d
    by (simp add: example_command_def)
qed

text \<open>
  Claim C6 as stated fails when a pending command matches the new call: agent A has an
  active wait (handle 0), calls \<open>waitForCommand\<close> again without filters, receives the
  queued command at once, and the wait with handle 0 is still active; no WAIT_FAILED
  entry is written.
\<close>

theorem supersede_counterexample:
  "active_waits waiting_with_pending ''A'' = [0]
   \<and> active_waits (snd (waitForCommand 3 ''A'' 300000 no_filters waiting_with_pending)) ''A'' = [0]
   \<and> map h_action (commandHistory (snd (waitForCommand 3 ''A'' 300000 no_filters waiting_with_pending)))
       = [WAIT_STARTED, COMMAND_QUEUED, COMMAND_RECEIVED]"
  by (simp add: waiting_with_pending_def waiting_queue_def testing_only_def example_command_def
        no_filters_def queue_eval)

text \<open>
  Claim C6, as the code has it: in every reachable state an agent has at most one active
  wait; and a call of \<open>waitForCommand\<close> by an agent with an active wait \<open>h\<close>, when no
  pending command matches the new filters, rejects \<open>h\<close> with the message of
  \<open>superseded_message\<close>, which is no timeout message, writes a WAIT_FAILED entry, and
  leaves the new wait as the agent's only active one.
\<close>

theorem one_active_wait_and_supersede:
  assumes "reachable q"
  shows "length (active_waits q agentId) \<le> 1
    \<and> (h \<in> set (active_waits q agentId) \<and> findMatchingPendingCommand q f = None \<longrightarrow>
         promises (snd (waitForCommand now agentId t f q)) ! h =
           (agentId, Some (Rejected superseded_message))
       \<and> superseded_message \<noteq> timeout_message t'
       \<and> \<lparr>h_timestamp = now, h_action = WAIT_FAILED, h_agentId = Some agentId,
           h_data = HError superseded_message\<rparr>
            \<in> set (commandHistory (snd (waitForCommand now agentId t f q)))
       \<and> active_waits (snd (waitForCommand now agentId t f q)) agentId = [length (promises q)])"
proof -
  have inv: "queue_inv q" using assms by (rule reachable_queue_inv)
  have one: "length (active_waits q agentId) \<le> 1" using inv by (rule active_waits_at_most_one)
  have rest: "promises (snd (waitForCommand now agentId t f q)) ! h =
           (agentId, Some (Rejected superseded_message))
       \<and> \<lparr>h_timestamp = now, h_action = WAIT_FAILED, h_agentId = Some agentId,
           h_data = HError superseded_message\<rparr>
            \<in> set (commandHistory (snd (waitForCommand now agentId t f q)))
       \<and> active_waits (snd (waitForCommand now agentId t f q)) agentId = [length (promises q)]"
    if act: "h \<in> set (active_waits q agentId)" and nomatch: "findMatchingPendingCommand q f = None"
  proof -
    let ?q' = "snd (waitForCommand now agentId t f q)"
    have hl: "h < length (promises q)" using act by (simp add: active_waits_def)
    have pr: "promises ?q' =
        (promises q)[h := (agentId, Some (Rejected superseded_message))] @ [(agentId, None)]"
      using inv act nomatch by (rule waitForCommand_supersedes(1))
    have a: "promises ?q' ! h = (agentId, Some (Rejected superseded_message))"
      using hl by (simp add: pr nth_append)
    have b: "\<lparr>h_timestamp = now, h_action = WAIT_FAILED, h_agentId = Some agentId,
           h_data = HError superseded_message\<rparr> \<in> set (commandHistory ?q')"
      using inv act nomatch by (rule waitForCommand_supersedes(2))
    have inv': "queue_inv ?q'" using inv by (rule queue_inv_waitForCommand)
    have le: "length (active_waits ?q' agentId) \<le> 1"
      using inv' by (rule active_waits_at_most_one)
    have mem: "length (promises q) \<in> set (active_waits ?q' agentId)"
      by (simp add: active_waits_def pr nth_append)
    have c: "active_waits ?q' agentId = [length (promises q)]"
    proof (cases "active_waits ?q' agentId")
      case Nil
      then show ?thesis using mem by simp
    next
      case (Cons x xs)
      then have "xs = []" using le by simp
      then show ?thesis using mem Cons by simp
    qed
    show ?thesis using a b c by simp
  qed
  show ?thesis using one rest superseded_not_timeout by blast
qed

text \<open>
  Agent A waits for TESTING tasks and nothing is queued; its second call rejects the
  first wait (handle 0) and leaves the new one (handle 1) as its only active wait.
\<close>

theorem one_active_wait_and_supersede_witness:
  "reachable waiting_queue
   \<and> 0 \<in> set (active_waits waiting_queue ''A'')
   \<and> findMatchingPendingCommand waiting_queue no_filters = None
   \<and> length (active_waits waiting_queue ''A'') \<le> 1
   \<and> promises (snd (waitForCommand 2 ''A'' 300000 no_filters waiting_queue)) ! 0 =
        (''A'', Some (Rejected superseded_message))
   \<and> superseded_message \<noteq> timeout_message 300000
   \<and> active_waits (snd (waitForCommand 2 ''A'' 300000 no_filters waiting_queue)) ''A'' = [1]"
proof -
  have r: "reachable waiting_queue"
    using reachable_step [OF reachable_new, of 1 "Wait ''A'' 300000 testing_only"]
    by (simp add: waiting_queue_def)
  have a: "0 \<in> set (active_waits waiting_queue ''A'')"
    by (simp add: waiting_queue_def testing_only_def queue_eval)
  have n: "findMatchingPendingCommand waiting_queue no_filters = None"
    by (simp add: waiting_queue_def testing_only_def queue_eval)
  have l: "length (promises waiting_queue) = 1"
    by (simp add: waiting_queue_def testing_only_def queue_eval)
  show ?thesis
    using one_active_wait_and_supersede [OF r, of "''A''" 0 no_filters 2 300000 300000] r a n l
    by simp
qed

section \<open>Properties of the graph store\<close>

subsection \<open>What the journal records\<close>

text \<open>
  Claim C1 on scenario S1: \<open>createComponent\<close> writes its CREATE_COMPONENT entry, but after
  \<open>updateComponent\<close> has changed the description, and again after \<open>deleteComponent\<close> has
  removed the component, the journal still holds that one entry: no UPDATE_COMPONENT and
  no DELETE_COMPONENT entry is written.
\<close>

theorem update_and_delete_leave_no_journal_entry:
  "journal_operations s1_created = [Some (JStr ''CREATE_COMPONENT'')]
   \<and> getComponent s1_id s1_updated =
       Some [(''id'', s1_id), (''type'', JStr ''FILE''), (''name'', JStr ''a.js''),
             (''description'', JStr ''root''), (''path'', JStr []), (''codebase'', JStr [])]
   \<and> journal_operations s1_updated = [Some (JStr ''CREATE_COMPONENT'')]
   \<and> getComponent s1_id s1_deleted = None
   \<and> journal_operations s1_deleted = [Some (JStr ''CREATE_COMPONENT'')]"
  by code_simp

text \<open>
  Claim C9 on the entry that \<open>createComponent\<close> writes: read back by \<open>getEntityHistory\<close>
  and by \<open>getRecentChanges\<close>, the \<open>beforeState\<close> of the CREATE_COMPONENT entry is the
  empty object, not null: \<open>recordChange\<close> stores the text of \<open>{}\<close> for a null state, and
  that text is truthy when it is read.
\<close>

theorem create_entry_reads_back_empty_object:
  "before_states (getEntityHistory s1_id 50 s1_created) = [Some (JObj [])]
   \<and> before_states (getRecentChanges 100 None s1_created) = [Some (JObj [])]"
  by code_simp

subsection \<open>Task validation\<close>

text \<open>
  Claim C7 on \<open>updateTaskStatus(id, 'BOGUS', 5)\<close> for an existing task: the call is not
  rejected, and the task then has status BOGUS and progress 5.
\<close>

theorem updateTaskStatus_accepts_invalid_values:
  "fst (updateTaskStatus task_id_example (JStr ''BOGUS'') (JNum 5) with_task) =
     Inr (Some [(''id'', task_id_example), (''name'', JStr ''write tests''),
                (''description'', JStr []), (''status'', JStr ''BOGUS''),
                (''progress'', JNum 5), (''codebase'', JStr [])])
   \<and> map n_props (tasks (snd (updateTaskStatus task_id_example (JStr ''BOGUS'') (JNum 5) with_task))) =
       [ [(''id'', task_id_example), (''name'', JStr ''write tests''),
         (''description'', JStr []), (''status'', JStr ''BOGUS''),
         (''progress'', JNum 5), (''codebase'', JStr [])]]"
  by code_simp

subsection \<open>Replay and the snapshots\<close>

text \<open>
  Claim C3 on a graph with one snapshot: \<open>replayToTimestamp\<close> with \<open>dryRun = false\<close>
  deletes every node that is not a \<open>ChangeEvent\<close>, the snapshot among them.
\<close>

theorem replay_deletes_snapshots:
  "length (snapshots with_snapshot) = 1
   \<and> snapshots (snd (replayToTimestamp example_env ''2025-07-20T10:00:00.012Z'' False
                       with_snapshot)) = []"
  by code_simp


subsection \<open>Effects of the primitives\<close>

lemma uuidv4_graph [simp]:
  "nodes (snd (uuidv4 env g)) = nodes g"
  "edges (snd (uuidv4 env g)) = edges g"
  "next_key (snd (uuidv4 env g)) = next_key g"
  by (simp_all add: uuidv4_def)

lemma toISOString_graph [simp]:
  "nodes (snd (toISOString env g)) = nodes g"
  "edges (snd (toISOString env g)) = edges g"
  "next_key (snd (toISOString env g)) = next_key g"
  by (simp_all add: toISOString_def)

lemma id_or_uuid_graph [simp]:
  "nodes (snd (id_or_uuid env d g)) = nodes g"
  "edges (snd (id_or_uuid env d g)) = edges g"
  "next_key (snd (id_or_uuid env d g)) = next_key g"
  by (simp_all add: id_or_uuid_def uuidv4_def split: option.splits)

lemma create_node_Inr:
  assumes "create_node ls ps g = (Inr n, g')"
  shows "nodes g' = nodes g @ [n]" "edges g' = edges g" "n_labels n = ls"
    "n_props n = neo4j_props ps" "n_key n = next_key g" "next_key g' = Suc (next_key g)"
  using assms by (auto simp: create_node_def Let_def split: if_splits)

lemma create_node_Inl:
  assumes "create_node ls ps g = (Inl e, g')"
  shows "g' = g"
  using assms by (auto simp: create_node_def Let_def split: if_splits)

lemma z_enum_member: "z_enum vs v = Inr s \<Longrightarrow> s \<in> set vs"
  by (cases "(vs, v)" rule: z_enum.cases) (auto split: if_splits)

lemma bind_Inr: "bind r f = Inr y \<longleftrightarrow> (\<exists>x. r = Inr x \<and> f x = Inr y)"
  by (cases r) (auto simp: bind_def)

lemma ComponentSchema_parse_type:
  "ComponentSchema_parse d = Inr c \<Longrightarrow> comp_type c \<in> set ComponentType"
  by (auto simp: ComponentSchema_parse_def bind_Inr dest: z_enum_member)

lemma ChangeEvent_not_ComponentType: "''ChangeEvent'' \<notin> set ComponentType"
  by (simp add: ComponentType_def)

lemma create_component_node_Inr:
  assumes "create_component_node env d g = (Inr n, g')"
  shows "nodes g' = nodes g @ [n]" "edges g' = edges g"
    "\<exists>t \<in> set ComponentType. n_labels n = [''Component'', t]"
    "n_key n = next_key g" "next_key g' = Suc (next_key g)"
proof -
  obtain i g1 where ig: "id_or_uuid env d g = (i, g1)" by (cases "id_or_uuid env d g")
  then have g1: "nodes g1 = nodes g" "edges g1 = edges g" "next_key g1 = next_key g"
    using id_or_uuid_graph[of env d g] by simp_all
  from assms ig obtain c where c: "ComponentSchema_parse (AList.update ''id'' i d) = Inr c"
    and cn: "create_node [''Component'', comp_type c] (Component_toNode c) g1 = (Inr n, g')"
    by (auto simp: create_component_node_def split: sum.splits)
  show "nodes g' = nodes g @ [n]" "edges g' = edges g" "n_key n = next_key g"
    "next_key g' = Suc (next_key g)"
    using create_node_Inr[OF cn] g1 by simp_all
  show "\<exists>t \<in> set ComponentType. n_labels n = [''Component'', t]"
    using create_node_Inr(3)[OF cn] ComponentSchema_parse_type[OF c] by auto
qed

lemma create_component_node_Inl:
  assumes "create_component_node env d g = (Inl e, g')"
  shows "nodes g' = nodes g" "edges g' = edges g" "next_key g' = next_key g"
proof -
  obtain i g1 where ig: "id_or_uuid env d g = (i, g1)" by (cases "id_or_uuid env d g")
  then have g1: "nodes g1 = nodes g" "edges g1 = edges g" "next_key g1 = next_key g"
    using id_or_uuid_graph[of env d g] by simp_all
  from assms ig have "g' = g1"
    by (auto simp: create_component_node_def split: sum.splits dest: create_node_Inl)
  then show "nodes g' = nodes g" "edges g' = edges g" "next_key g' = next_key g"
    using g1 by simp_all
qed

lemma recordChange_Inr:
  assumes "recordChange env operation entityType entityId b a [] g = (Inr ev, g')"
  shows "\<exists>n. nodes g' = nodes g @ [n] \<and> edges g' = edges g \<and> n_labels n = [''ChangeEvent'']
           \<and> node_prop n ''operation'' = Some (JStr operation)
           \<and> node_prop n ''entityType'' = Some (JStr entityType)
           \<and> node_prop n ''entityId'' = (case entityId of None \<Rightarrow> None | Some v \<Rightarrow> if v = JNull then None else Some v)
           \<and> n_key n = next_key g \<and> next_key g' = Suc (next_key g)"
proof -
  obtain u g1 where u: "uuidv4 env g = (u, g1)" by (cases "uuidv4 env g")
  obtain t g2 where t: "toISOString env g1 = (t, g2)" by (cases "toISOString env g1")
  have g2: "nodes g2 = nodes g" "edges g2 = edges g" "next_key g2 = next_key g"
    using u t uuidv4_graph[of env g] toISOString_graph[of env g1] by simp_all
  from assms u t obtain n where
    cn: "create_node [''ChangeEvent'']
          (spread []
            [(''id'', JStr u), (''operation'', JStr operation),
             (''entityType'', JStr entityType), (''entityId'', or_null entityId),
             (''beforeState'', JSON_stringify (js_or (Some b) (JObj []))),
             (''afterState'', JSON_stringify (js_or (Some a) (JObj []))),
             (''timestamp'', JStr t),
             (''sessionId'', js_or (map_of [] ''sessionId'') (JStr ''anonymous'')),
             (''userId'', js_or (map_of [] ''userId'') (JStr ''system'')),
             (''source'', js_or (map_of [] ''source'') (JStr ''mcp-server''))]) g2 = (Inr n, g')"
    by (auto simp: recordChange_def Let_def split: prod.splits sum.splits)
  have "node_prop n ''operation'' = Some (JStr operation)"
    "node_prop n ''entityType'' = Some (JStr entityType)"
    "node_prop n ''entityId'' = (case entityId of None \<Rightarrow> None | Some v \<Rightarrow> if v = JNull then None else Some v)"
    using create_node_Inr(4)[OF cn]
    by (auto simp: node_prop_def neo4j_props_def spread_def or_null_def split: option.splits)
  then show ?thesis
    using create_node_Inr[OF cn] g2 by auto
qed

lemma recordChange_Inl:
  assumes "recordChange env operation entityType entityId b a md g = (Inl e, g')"
  shows "nodes g' = nodes g" "edges g' = edges g" "next_key g' = next_key g"
proof -
  obtain u g1 where u: "uuidv4 env g = (u, g1)" by (cases "uuidv4 env g")
  obtain t g2 where t: "toISOString env g1 = (t, g2)" by (cases "toISOString env g1")
  have g2: "nodes g2 = nodes g" "edges g2 = edges g" "next_key g2 = next_key g"
    using u t uuidv4_graph[of env g] toISOString_graph[of env g1] by simp_all
  from assms u t have "g' = g2"
    by (auto simp: recordChange_def Let_def split: prod.splits sum.splits dest: create_node_Inl)
  then show "nodes g' = nodes g" "edges g' = edges g" "next_key g' = next_key g"
    using g2 by simp_all
qed

subsection \<open>Restore and the journal\<close>

lemma createComponent_Inr:
  assumes "createComponent env d [] g = (Inr c, g')"
  shows "\<exists>cn ev. nodes g' = nodes g @ [cn, ev] \<and> edges g' = edges g
           \<and> (\<exists>t \<in> set ComponentType. n_labels cn = [''Component'', t])
           \<and> n_labels ev = [''ChangeEvent'']
           \<and> node_prop ev ''operation'' = Some (JStr ''CREATE_COMPONENT'')
           \<and> node_prop ev ''entityType'' = Some (JStr ''COMPONENT'')
           \<and> n_key cn = next_key g \<and> n_key ev = Suc (next_key g)
           \<and> next_key g' = Suc (Suc (next_key g))"
proof -
  from assms obtain cn g2 where cn: "create_component_node env d g = (Inr cn, g2)"
    by (auto simp: createComponent_def split: prod.splits sum.splits)
  from assms cn obtain ev where rc: "recordChange env ''CREATE_COMPONENT'' ''COMPONENT''
      (node_prop cn ''id'') JNull (JObj (n_props cn)) [] g2 = (Inr ev, g')"
    by (auto simp: createComponent_def split: prod.splits sum.splits)
  from recordChange_Inr[OF rc] obtain n where n:
    "nodes g' = nodes g2 @ [n]" "edges g' = edges g2" "n_labels n = [''ChangeEvent'']"
    "node_prop n ''operation'' = Some (JStr ''CREATE_COMPONENT'')"
    "node_prop n ''entityType'' = Some (JStr ''COMPONENT'')"
    "n_key n = next_key g2" "next_key g' = Suc (next_key g2)"
    by blast
  show ?thesis
    using create_component_node_Inr[OF cn] n by auto
qed

lemma createComponent_Inl:
  assumes "createComponent env d md g = (Inl e, g')"
  shows "journal g' = journal g"
proof -
  show ?thesis
  proof (cases "create_component_node env d g")
    case (Pair r g2)
    show ?thesis
    proof (cases r)
      case (Inl e')
      then have "g' = g2" using assms Pair by (simp add: createComponent_def)
      then show ?thesis
        using create_component_node_Inl(1)[of env d g e' g2] Pair Inl by (simp add: journal_def)
    next
      case (Inr cn)
      then have rc: "recordChange env ''CREATE_COMPONENT'' ''COMPONENT'' (node_prop cn ''id'') JNull
               (JObj (n_props cn)) md g2 = (Inl e, g')"
        using assms Pair by (auto simp: createComponent_def split: prod.splits sum.splits)
      have "\<not> has_label ''ChangeEvent'' cn"
        using create_component_node_Inr(3)[of env d g cn g2] Pair Inr ChangeEvent_not_ComponentType
        by (auto simp: has_label_def)
      then show ?thesis
        using recordChange_Inl(1)[OF rc] create_component_node_Inr(1)[of env d g cn g2] Pair Inr
        by (simp add: journal_def)
    qed
  qed
qed

lemma with_object_Inr:
  assumes "with_object env v create g = (Inr x, g')"
  shows "\<exists>d. v = JObj d \<and> create d g = (Inr x, g')"
  using assms by (cases v) (simp_all add: with_object_def)

lemma with_object_Inl:
  assumes "with_object env v create g = (Inl e, g')"
  shows "(\<exists>d. v = JObj d \<and> create d g = (Inl e, g'))
       \<or> (nodes g' = nodes g \<and> edges g' = edges g \<and> next_key g' = next_key g)"
  using assms by (cases v) (auto simp: with_object_def)

lemma restore_components_journal:
  assumes "restore_components env cs g = (r, g')"
  shows "\<exists>new. journal g' = journal g @ new
           \<and> list_all (\<lambda>n. node_prop n ''operation'' = Some (JStr ''CREATE_COMPONENT'')
                         \<and> node_prop n ''entityType'' = Some (JStr ''COMPONENT'')) new
           \<and> (case r of Inl e \<Rightarrow> length new \<le> length cs | Inr u \<Rightarrow> length new = length cs)"
  using assms
proof (induction cs arbitrary: g)
  case Nil
  then show ?case by auto
next
  case (Cons c cs)
  obtain x g1 where w: "with_object env c (\<lambda>d. createComponent env d []) g = (x, g1)"
    by (cases "with_object env c (\<lambda>d. createComponent env d []) g")
  show ?case
  proof (cases x)
    case (Inl e)
    then have rg: "r = Inl e" "g' = g1" using Cons.prems w by simp_all
    have "journal g1 = journal g"
      using with_object_Inl[OF w[unfolded Inl]] createComponent_Inl by (auto simp: journal_def)
    then show ?thesis using rg by (intro exI[of _ "[]"]) simp
  next
    case (Inr y)
    then have rest: "restore_components env cs g1 = (r, g')" using Cons.prems w by simp
    from with_object_Inr[OF w[unfolded Inr]] obtain d where
      cc: "createComponent env d [] g = (Inr y, g1)" by blast
    from createComponent_Inr[OF cc] obtain cn ev where ce:
      "nodes g1 = nodes g @ [cn, ev]" "\<exists>t \<in> set ComponentType. n_labels cn = [''Component'', t]"
      "n_labels ev = [''ChangeEvent'']"
      "node_prop ev ''operation'' = Some (JStr ''CREATE_COMPONENT'')"
      "node_prop ev ''entityType'' = Some (JStr ''COMPONENT'')"
      by blast
    have "\<not> has_label ''ChangeEvent'' cn"
      using ce(2) ChangeEvent_not_ComponentType by (auto simp: has_label_def)
    then have j1: "journal g1 = journal g @ [ev]"
      using ce by (simp add: journal_def has_label_def)
    from Cons.IH[OF rest] obtain new where new: "journal g' = journal g1 @ new"
      "list_all (\<lambda>n. node_prop n ''operation'' = Some (JStr ''CREATE_COMPONENT'')
                         \<and> node_prop n ''entityType'' = Some (JStr ''COMPONENT'')) new"
      "case r of Inl e \<Rightarrow> length new \<le> length cs | Inr u \<Rightarrow> length new = length cs"
      by blast
    show ?thesis
      by (rule exI[of _ "ev # new"]) (use j1 new ce in \<open>auto split: sum.splits\<close>)
  qed
qed

lemma create_edges_nodes [simp]:
  "nodes (create_edges t ps pairs g) = nodes g"
  "next_key (create_edges t ps pairs g) = next_key g"
  by (simp_all add: create_edges_def)

lemma journal_cong: "nodes g' = nodes g \<Longrightarrow> journal g' = journal g"
  by (simp add: journal_def)

lemma snapshots_cong: "nodes g' = nodes g \<Longrightarrow> snapshots g' = snapshots g"
  by (simp add: snapshots_def)

lemma createTask_nodes:
  "nodes (snd (createTask env d g)) = nodes g
   \<or> (\<exists>n. nodes (snd (createTask env d g)) = nodes g @ [n] \<and> n_labels n = [''Task''])"
proof -
  obtain i g1 where ig: "id_or_uuid env d g = (i, g1)" by (cases "id_or_uuid env d g")
  then have g1: "nodes g1 = nodes g" using id_or_uuid_graph(1)[of env d g] by simp
  show ?thesis
  proof (cases "TaskSchema_parse (AList.update ''id'' i d)")
    case (Inl e)
    then show ?thesis using ig g1 by (simp add: createTask_def)
  next
    case (Inr task)
    show ?thesis
    proof (cases "create_node [''Task''] (Task_toNode task) g1")
      case (Pair r g2)
      show ?thesis
      proof (cases r)
        case (Inl e)
        then have "g2 = g1" using Pair create_node_Inl by blast
        then show ?thesis using ig g1 Inr Pair Inl by (simp add: createTask_def)
      next
        case (Inr n)
        then have "nodes g2 = nodes g @ [n]" "n_labels n = [''Task'']"
          using create_node_Inr(1,3)[of "[''Task'']" "Task_toNode task" g1 n g2] Pair g1 by simp_all
        then show ?thesis using ig \<open>TaskSchema_parse (AList.update ''id'' i d) = Inr task\<close> Pair Inr
          by (simp add: createTask_def)
      qed
    qed
  qed
qed

lemma createTask_journal: "journal (snd (createTask env d g)) = journal g"
  using createTask_nodes[of env d g] by (auto simp: journal_def has_label_def)

lemma createTask_snapshots: "snapshots (snd (createTask env d g)) = snapshots g"
  using createTask_nodes[of env d g] by (auto simp: snapshots_def has_label_def)

lemma createRelationship_nodes: "nodes (snd (createRelationship env d g)) = nodes g"
proof -
  obtain i g1 where ig: "id_or_uuid env d g = (i, g1)" by (cases "id_or_uuid env d g")
  then have g1: "nodes g1 = nodes g" using id_or_uuid_graph(1)[of env d g] by simp
  show ?thesis using ig g1
    by (simp add: createRelationship_def Let_def split: sum.splits)
qed

lemma with_object_nodes:
  assumes "\<And>d. nodes (snd (create d g)) = nodes g"
  shows "nodes (snd (with_object env v create g)) = nodes g"
  using assms by (cases v) (simp_all add: with_object_def)

lemma with_object_journal:
  assumes "\<And>d. journal (snd (create d g)) = journal g"
  shows "journal (snd (with_object env v create g)) = journal g"
  using assms by (cases v) (simp_all add: with_object_def journal_def)

lemma restore_tasks_journal:
  "journal (snd (restore_tasks env ts g)) = journal g"
proof (induction ts arbitrary: g)
  case Nil
  show ?case by simp
next
  case (Cons t ts)
  obtain r g1 where c: "with_object env t (\<lambda>d. createTask env d) g = (r, g1)"
    by (cases "with_object env t (\<lambda>d. createTask env d) g")
  have j: "journal g1 = journal g"
    using with_object_journal[of "\<lambda>d. createTask env d" g env t] createTask_journal c by simp
  show ?case using c j Cons.IH[of g1] by (cases r) simp_all
qed

lemma restore_relationships_nodes:
  "nodes (snd (restore_relationships env rs g)) = nodes g"
proof (induction rs arbitrary: g)
  case Nil
  show ?case by simp
next
  case (Cons r rs)
  obtain x g1 where c: "with_object env r (\<lambda>d. createRelationship env d) g = (x, g1)"
    by (cases "with_object env r (\<lambda>d. createRelationship env d) g")
  have j: "nodes g1 = nodes g"
    using with_object_nodes[of "\<lambda>d. createRelationship env d" g env r]
      createRelationship_nodes c by simp
  show ?case using c j Cons.IH[of g1] by (cases x) simp_all
qed

lemma journal_clear_for_restore:
  "journal (detach_delete (\<lambda>n. \<not> (has_label ''ChangeEvent'' n \<or> has_label ''Snapshot'' n)) g)
     = journal g"
proof -
  have "filter (has_label ''ChangeEvent'')
          (filter (\<lambda>n. \<not> \<not> (has_label ''ChangeEvent'' n \<or> has_label ''Snapshot'' n)) ns)
        = filter (has_label ''ChangeEvent'') ns" for ns
    by (induction ns) auto
  then show ?thesis by (simp add: journal_def detach_delete_def Let_def)
qed

lemma restore_all_journal:
  assumes comps: "payload_list data ''components'' = Inr cs"
    and run: "restore_all env data g = (r, g')"
  shows "\<exists>new. journal g' = journal g @ new
           \<and> list_all (\<lambda>n. node_prop n ''operation'' = Some (JStr ''CREATE_COMPONENT'')
                         \<and> node_prop n ''entityType'' = Some (JStr ''COMPONENT'')) new
           \<and> (case r of Inl e \<Rightarrow> length new \<le> length cs | Inr x \<Rightarrow> length new = length cs)"
proof -
  obtain x g1 where rc: "restore_components env cs g = (x, g1)"
    by (cases "restore_components env cs g")
  from restore_components_journal[OF rc] obtain new where new:
    "journal g1 = journal g @ new"
    "list_all (\<lambda>n. node_prop n ''operation'' = Some (JStr ''CREATE_COMPONENT'')
                         \<and> node_prop n ''entityType'' = Some (JStr ''COMPONENT'')) new"
    "case x of Inl e \<Rightarrow> length new \<le> length cs | Inr u \<Rightarrow> length new = length cs"
    by blast
  show ?thesis
  proof (cases x)
    case (Inl e)
    then have "r = Inl e" "g' = g1" using run comps rc by (simp_all add: restore_all_def)
    then show ?thesis using new Inl by (intro exI[of _ new]) simp
  next
    case (Inr u)
    then have len: "length new = length cs" using new(3) by simp
    have "journal g' = journal g1"
    proof (cases "payload_list data ''tasks''")
      case (Inl e)
      then show ?thesis using run comps rc Inr by (simp add: restore_all_def)
    next
      case ts: (Inr ts)
      obtain y g2 where rt: "restore_tasks env ts g1 = (y, g2)"
        by (cases "restore_tasks env ts g1")
      have j2: "journal g2 = journal g1" using restore_tasks_journal[of env ts g1] rt by simp
      show ?thesis
      proof (cases y)
        case (Inl e)
        then show ?thesis using run comps rc Inr ts rt j2 by (simp add: restore_all_def)
      next
        case yr: (Inr u')
        show ?thesis
        proof (cases "payload_list data ''relationships''")
          case (Inl e)
          then show ?thesis using run comps rc Inr ts rt yr j2 by (simp add: restore_all_def)
        next
          case rs: (Inr rs)
          obtain z g3 where rr: "restore_relationships env rs g2 = (z, g3)"
            by (cases "restore_relationships env rs g2")
          have "nodes g3 = nodes g2" using restore_relationships_nodes[of env rs g2] rr by simp
          then have j3: "journal g3 = journal g2" by (rule journal_cong)
          have "g' = g3" using run comps rc Inr ts rt yr rs rr
            by (cases z) (simp_all add: restore_all_def)
          then show ?thesis using j2 j3 by simp
        qed
      qed
    qed
    moreover have "case r of Inl e \<Rightarrow> length new \<le> length cs | Inr x \<Rightarrow> length new = length cs"
      using len by (cases r) simp_all
    ultimately show ?thesis using new by (intro exI[of _ new]) simp
  qed
qed

text \<open>
  Claim C10, as the code has it: a restore with \<open>dryRun = false\<close> leaves the journal it
  found, followed by new entries that are all CREATE_COMPONENT entries for a COMPONENT.
  When the restore completes there is exactly one of them per component of the
  snapshot's payload; when it stops at an error there are no more than that. Restoring the
  tasks and the relationships adds nothing to the journal.
\<close>

theorem restore_adds_one_entry_per_component:
  assumes found: "match_nodes ''Snapshot'' snapshotId g = snapshot # others"
    and payload: "JSON_parse (node_prop snapshot ''data'') = Inr data"
    and comps: "payload_list data ''components'' = Inr cs"
    and run: "restoreFromSnapshot env snapshotId False g = (r, g')"
  shows "\<exists>new. journal g' = journal g @ new
           \<and> list_all (\<lambda>n. node_prop n ''operation'' = Some (JStr ''CREATE_COMPONENT'')
                         \<and> node_prop n ''entityType'' = Some (JStr ''COMPONENT'')) new
           \<and> (case r of Inl e \<Rightarrow> length new \<le> length cs | Inr x \<Rightarrow> length new = length cs)"
proof -
  let ?g0 = "detach_delete (\<lambda>n. \<not> (has_label ''ChangeEvent'' n \<or> has_label ''Snapshot'' n)) g"
  have "restore_all env data ?g0 = (r, g')"
    using run found payload by (simp add: restoreFromSnapshot_def)
  from restore_all_journal[OF comps this] show ?thesis
    using journal_clear_for_restore[of g] by simp
qed

lemma unnamed_report:
  "journal_report example_env unnamed_snapshot = (1, Inl ZodError, True)"
  by code_simp

text \<open>
  Claim C10 as stated fails on a restore that does not complete. The component of S1 has
  been given the empty name by \<open>updateComponent\<close>, and a snapshot holds it. The restore
  clears the graph and stops at that component, which the schema of \<open>createComponent\<close>
  refuses: the payload has one component, and the journal is as it was.
\<close>

theorem failed_restore_adds_no_entry:
  "length (payload_components (last_payload unnamed_snapshot)) = 1
   \<and> fst (restoreFromSnapshot example_env (last_snapshot_id unnamed_snapshot) False
             unnamed_snapshot) = Inl ZodError
   \<and> journal (snd (restoreFromSnapshot example_env (last_snapshot_id unnamed_snapshot) False
                      unnamed_snapshot)) = journal unnamed_snapshot"
proof -
  note u = unnamed_report [unfolded journal_report_def Let_def prod.inject]
  show ?thesis
    apply (intro conjI)
      apply (rule u [THEN conjunct1])
     apply (rule u [THEN conjunct2, THEN conjunct1])
    apply (rule u [THEN conjunct2, THEN conjunct2, THEN iffD1 [OF eq_True]])
    done
qed

text \<open>
  The snapshot of the graph with one component and one task is restored: the restore
  completes and the journal grows by one CREATE_COMPONENT entry.
\<close>

theorem restore_adds_one_entry_per_component_witness:
  "fst (restoreFromSnapshot example_env snapshot_id_example False with_snapshot) = Inr (Restored 1 1 0)
   \<and> length example_payload_components = 1
   \<and> (\<exists>new. journal (snd (restoreFromSnapshot example_env snapshot_id_example False with_snapshot))
                = journal with_snapshot @ new
          \<and> list_all (\<lambda>n. node_prop n ''operation'' = Some (JStr ''CREATE_COMPONENT'')
                         \<and> node_prop n ''entityType'' = Some (JStr ''COMPONENT'')) new
          \<and> length new = length example_payload_components)"
proof -
  have found: "match_nodes ''Snapshot'' snapshot_id_example with_snapshot =
                 hd (snapshots with_snapshot) # []"
    by code_simp
  have payload: "JSON_parse (node_prop (hd (snapshots with_snapshot)) ''data'') =
                   Inr example_payload"
    by code_simp
  have comps: "payload_list example_payload ''components'' = Inr example_payload_components"
    by code_simp
  have res: "fst (restoreFromSnapshot example_env snapshot_id_example False with_snapshot) =
               Inr (Restored 1 1 0)"
    by code_simp
  have len: "length example_payload_components = 1"
    by code_simp
  have ok: "restoreFromSnapshot example_env snapshot_id_example False with_snapshot =
              (Inr (Restored 1 1 0),
               snd (restoreFromSnapshot example_env snapshot_id_example False with_snapshot))"
    using res by (simp add: prod_eq_iff)
  show ?thesis
    using restore_adds_one_entry_per_component [OF found payload comps ok] res len by simp
qed

subsection \<open>The edges between components\<close>

lemma graph_inv_cong:
  "nodes g' = nodes g \<Longrightarrow> edges g' = edges g \<Longrightarrow> next_key g' = next_key g \<Longrightarrow>
   graph_inv g' = graph_inv g"
  by (simp add: graph_inv_def edge_ok_def)

lemma labels_ok_not_component:
  assumes "labels_ok (n_labels n)" and "has_label ''Task'' n \<or> has_label ''Comment'' n"
  shows "\<not> has_label ''Component'' n"
  using assms by (auto simp: labels_ok_def has_label_def ComponentType_def)

lemma graph_inv_add_node:
  assumes inv: "graph_inv g" and ls: "labels_ok ls"
  shows "graph_inv (g\<lparr>nodes := nodes g @ [\<lparr>n_key = next_key g, n_labels = ls, n_props = ps\<rparr>],
                      next_key := Suc (next_key g)\<rparr>)"
proof -
  have d: "distinct (map n_key (nodes g))" and
    nk: "\<And>n. n \<in> set (nodes g) \<Longrightarrow> n_key n < next_key g \<and> labels_ok (n_labels n)" and
    ek: "\<And>e. e \<in> set (edges g) \<Longrightarrow> edge_ok g e"
    using inv by (auto simp: graph_inv_def)
  have fresh: "next_key g \<notin> n_key ` set (nodes g)" using nk by fastforce
  let ?n = "\<lparr>n_key = next_key g, n_labels = ls, n_props = ps\<rparr>"
  let ?g = "g\<lparr>nodes := nodes g @ [?n], next_key := Suc (next_key g)\<rparr>"
  have 1: "distinct (map n_key (nodes ?g))" using d fresh by simp
  have 2: "n_key n < next_key ?g \<and> labels_ok (n_labels n)" if "n \<in> set (nodes ?g)" for n
    using that nk ls by (auto simp: less_Suc_eq)
  have 3: "edge_ok ?g e" if e: "e \<in> set (edges ?g)" for e
  proof -
    have eg: "edge_ok g e" using e ek by simp
    then have lt: "e_start e < next_key g" "e_end e < next_key g" by (simp_all add: edge_ok_def)
    show ?thesis
      using eg lt unfolding edge_ok_def by auto
  qed
  show ?thesis
    unfolding graph_inv_def using 1 2 3 by blast
qed

lemma graph_inv_create_node:
  assumes "graph_inv g" and "labels_ok ls"
  shows "graph_inv (snd (create_node ls ps g))"
  using graph_inv_add_node[OF assms] assms(1)
  by (simp add: create_node_def Let_def)

lemma graph_inv_map_nodes:
  assumes inv: "graph_inv g"
    and k: "\<And>n. n_key (f n) = n_key n" and lb: "\<And>n. n_labels (f n) = n_labels n"
  shows "graph_inv (g\<lparr>nodes := map f (nodes g)\<rparr>)"
proof -
  have d: "distinct (map n_key (nodes g))" and
    nk: "\<And>n. n \<in> set (nodes g) \<Longrightarrow> n_key n < next_key g \<and> labels_ok (n_labels n)" and
    ek: "\<And>e. e \<in> set (edges g) \<Longrightarrow> edge_ok g e"
    using inv by (auto simp: graph_inv_def)
  let ?g = "g\<lparr>nodes := map f (nodes g)\<rparr>"
  have keys: "map (n_key \<circ> f) (nodes g) = map n_key (nodes g)" by (simp add: k)
  have hl: "has_label x (f n) = has_label x n" for x n by (simp add: has_label_def lb)
  have 1: "distinct (map n_key (nodes ?g))" using d by (simp add: keys)
  have 2: "n_key n < next_key ?g \<and> labels_ok (n_labels n)" if "n \<in> set (nodes ?g)" for n
    using that nk k lb by auto
  have 3: "edge_ok ?g e" if e: "e \<in> set (edges ?g)" for e
  proof -
    have eg: "edge_ok g e" using e ek by simp
    show ?thesis
      using eg unfolding edge_ok_def by (auto simp: hl k)
  qed
  show ?thesis
    unfolding graph_inv_def using 1 2 3 by blast
qed

lemma graph_inv_update_nodes:
  assumes inv: "graph_inv g"
  shows "graph_inv (snd (update_nodes l v u g))"
proof -
  let ?f = "\<lambda>n. if has_label l n \<and> id_is v n then n\<lparr>n_props := merge_props u (n_props n)\<rparr> else n"
  have "graph_inv (g\<lparr>nodes := map ?f (nodes g)\<rparr>)"
    by (rule graph_inv_map_nodes[OF inv]) auto
  then show ?thesis using inv by (simp add: update_nodes_def Let_def)
qed

lemma graph_inv_detach_delete:
  assumes inv: "graph_inv g"
  shows "graph_inv (detach_delete gone g)"
  using inv unfolding graph_inv_def edge_ok_def detach_delete_def Let_def
  by (auto simp: distinct_map_filter)

lemma graph_inv_create_edges:
  assumes inv: "graph_inv g"
    and mem: "\<And>s t. (s, t) \<in> set pairs \<Longrightarrow> s \<in> set (nodes g) \<and> t \<in> set (nodes g)"
    and hc: "ty = ''HAS_COMMENT'' \<Longrightarrow> (\<And>s t. (s, t) \<in> set pairs \<Longrightarrow> \<not> has_label ''Component'' t)"
    and rt: "ty = ''RELATES_TO'' \<Longrightarrow> (\<And>s t. (s, t) \<in> set pairs \<Longrightarrow> \<not> has_label ''Component'' s)"
  shows "graph_inv (create_edges ty ps pairs g)"
proof -
  have d: "distinct (map n_key (nodes g))" and
    nk: "\<And>n. n \<in> set (nodes g) \<Longrightarrow> n_key n < next_key g \<and> labels_ok (n_labels n)" and
    ek: "\<And>e. e \<in> set (edges g) \<Longrightarrow> edge_ok g e"
    using inv by (auto simp: graph_inv_def)
  have same: "n = m" if "n \<in> set (nodes g)" "m \<in> set (nodes g)" "n_key n = n_key m" for n m
    using d that by (meson distinct_map inj_onD)
  have new: "edge_ok g \<lparr>e_type = ty, e_start = n_key s, e_end = n_key t, e_props = neo4j_props ps\<rparr>"
    if st: "(s, t) \<in> set pairs" for s t
  proof -
    have sn: "s \<in> set (nodes g)" and tn: "t \<in> set (nodes g)" using mem[OF st] by simp_all
    show ?thesis
      unfolding edge_ok_def
      using nk[OF sn] nk[OF tn] hc[OF _ st] rt[OF _ st] same[OF _ sn] same[OF _ tn]
      by auto
  qed
  have "edge_ok (create_edges ty ps pairs g) e = edge_ok g e" for e
    by (simp add: edge_ok_def create_edges_def)
  then show ?thesis
    using d nk ek new unfolding graph_inv_def
    by (auto simp: create_edges_def)
qed

lemma inv_create_node:
  "create_node ls ps g = (r, g') \<Longrightarrow> graph_inv g \<Longrightarrow> labels_ok ls \<Longrightarrow> graph_inv g'"
  using graph_inv_create_node[of g ls ps] by simp

lemma inv_update_nodes:
  "update_nodes l v u g = (r, g') \<Longrightarrow> graph_inv g \<Longrightarrow> graph_inv g'"
  using graph_inv_update_nodes[of g l v u] by simp

lemma inv_uuidv4: "uuidv4 env g = (u, g') \<Longrightarrow> graph_inv g' = graph_inv g"
  by (rule graph_inv_cong) (auto simp: uuidv4_def)

lemma inv_toISOString: "toISOString env g = (t, g') \<Longrightarrow> graph_inv g' = graph_inv g"
  by (rule graph_inv_cong) (auto simp: toISOString_def)

lemma inv_id_or_uuid: "id_or_uuid env d g = (i, g') \<Longrightarrow> graph_inv g' = graph_inv g"
  by (rule graph_inv_cong) (auto simp: id_or_uuid_def uuidv4_def split: option.splits if_splits)

lemma inv_rollback: "graph_inv (rollback g0 g) = graph_inv g0"
  by (rule graph_inv_cong) (simp_all add: rollback_def)

lemma labels_ok_simps [simp]:
  "labels_ok [''Task'']" "labels_ok [''Comment'']" "labels_ok [''ChangeEvent'']"
  "labels_ok [''Snapshot'']"
  by (simp_all add: labels_ok_def)

lemma labels_ok_component: "t \<in> set ComponentType \<Longrightarrow> labels_ok [''Component'', t]"
  by (simp add: labels_ok_def)

lemma inv_recordChange:
  assumes "recordChange env op et eid b a md g = (r, g')" and "graph_inv g"
  shows "graph_inv g'"
proof -
  obtain u g1 where u: "uuidv4 env g = (u, g1)" by (cases "uuidv4 env g")
  obtain t g2 where t: "toISOString env g1 = (t, g2)" by (cases "toISOString env g1")
  have i2: "graph_inv g2" using assms(2) inv_uuidv4[OF u] inv_toISOString[OF t] by simp
  from assms(1) u t obtain ps x where "create_node [''ChangeEvent''] ps g2 = (x, g')"
    by (auto simp: recordChange_def Let_def split: prod.splits sum.splits)
  then show ?thesis using i2 by (rule inv_create_node) simp
qed

lemma inv_create_component_node:
  assumes "create_component_node env d g = (r, g')" and "graph_inv g"
  shows "graph_inv g'"
proof -
  obtain i g1 where ig: "id_or_uuid env d g = (i, g1)" by (cases "id_or_uuid env d g")
  have i1: "graph_inv g1" using assms(2) inv_id_or_uuid[OF ig] by simp
  show ?thesis
  proof (cases "ComponentSchema_parse (AList.update ''id'' i d)")
    case (Inl e)
    then show ?thesis using assms(1) ig i1 by (simp add: create_component_node_def)
  next
    case (Inr c)
    then have "create_node [''Component'', comp_type c] (Component_toNode c) g1 = (r, g')"
      using assms(1) ig by (simp add: create_component_node_def)
    then show ?thesis using i1
      by (rule inv_create_node) (simp add: labels_ok_component ComponentSchema_parse_type[OF Inr])
  qed
qed

lemma inv_createComponent:
  assumes "createComponent env d md g = (r, g')" and "graph_inv g"
  shows "graph_inv g'"
proof (cases "create_component_node env d g")
  case (Pair x g2)
  have i2: "graph_inv g2" using Pair assms(2) by (rule inv_create_component_node)
  show ?thesis
  proof (cases x)
    case (Inl e)
    then show ?thesis using assms(1) Pair i2 by (simp add: createComponent_def)
  next
    case (Inr n)
    then obtain y where "recordChange env ''CREATE_COMPONENT'' ''COMPONENT'' (node_prop n ''id'') JNull
            (JObj (n_props n)) md g2 = (y, g')"
      using assms(1) Pair by (auto simp: createComponent_def split: prod.splits sum.splits)
    then show ?thesis using i2 by (rule inv_recordChange)
  qed
qed

lemma inv_updateComponent:
  "updateComponent i u g = (r, g') \<Longrightarrow> graph_inv g \<Longrightarrow> graph_inv g'"
  by (auto simp: updateComponent_def split: prod.splits sum.splits dest: inv_update_nodes)

lemma inv_deleteComponent:
  "graph_inv g \<Longrightarrow> graph_inv (snd (deleteComponent i g))"
  by (simp add: deleteComponent_def graph_inv_detach_delete)

lemma inv_deleteComment:
  "graph_inv g \<Longrightarrow> graph_inv (snd (deleteComment i g))"
  by (simp add: deleteComment_def graph_inv_detach_delete)

lemma inv_updateTaskStatus:
  "updateTaskStatus i s p g = (r, g') \<Longrightarrow> graph_inv g \<Longrightarrow> graph_inv g'"
  by (auto simp: updateTaskStatus_def Let_def split: prod.splits sum.splits if_splits
           dest: inv_update_nodes)

lemma inv_updateComment:
  assumes "updateComment env i u g = (r, g')" and "graph_inv g"
  shows "graph_inv g'"
proof -
  obtain t g1 where t: "toISOString env g = (t, g1)" by (cases "toISOString env g")
  have i1: "graph_inv g1" using assms(2) inv_toISOString[OF t] by simp
  show ?thesis using assms(1) t i1
    by (auto simp: updateComment_def split: prod.splits sum.splits dest: inv_update_nodes)
qed

lemma graph_inv_create_edges':
  assumes inv: "graph_inv g"
    and mem: "set pairs \<subseteq> set (nodes g) \<times> set (nodes g)"
    and hc: "ty = ''HAS_COMMENT'' \<longrightarrow> (\<forall>p \<in> set pairs. \<not> has_label ''Component'' (snd p))"
    and rt: "ty = ''RELATES_TO'' \<longrightarrow> (\<forall>p \<in> set pairs. \<not> has_label ''Component'' (fst p))"
  shows "graph_inv (create_edges ty ps pairs g)"
proof (rule graph_inv_create_edges[OF inv])
  fix s t assume "(s, t) \<in> set pairs"
  then show "s \<in> set (nodes g) \<and> t \<in> set (nodes g)" using mem by auto
next
  fix s t assume "ty = ''HAS_COMMENT''" "(s, t) \<in> set pairs"
  then show "\<not> has_label ''Component'' t" using hc by auto
next
  fix s t assume "ty = ''RELATES_TO''" "(s, t) \<in> set pairs"
  then show "\<not> has_label ''Component'' s" using rt by auto
qed

lemma RelationshipSchema_parse_type:
  "RelationshipSchema_parse d = Inr r \<Longrightarrow> rel_type r \<in> set RelationshipType"
  by (auto simp: RelationshipSchema_parse_def bind_Inr dest: z_enum_member)

lemma internal_kinds_not_RelationshipType:
  "''HAS_COMMENT'' \<notin> set RelationshipType" "''RELATES_TO'' \<notin> set RelationshipType"
  by (simp_all add: RelationshipType_def)

lemma inv_createRelationship:
  assumes "createRelationship env d g = (r, g')" and "graph_inv g"
  shows "graph_inv g'"
proof -
  obtain i g1 where ig: "id_or_uuid env d g = (i, g1)" by (cases "id_or_uuid env d g")
  have i1: "graph_inv g1" using assms(2) inv_id_or_uuid[OF ig] by simp
  show ?thesis
  proof (cases "RelationshipSchema_parse (AList.update ''id'' i d)")
    case (Inl e)
    then show ?thesis using assms(1) ig i1 by (simp add: createRelationship_def)
  next
    case (Inr rel)
    let ?pairs = "List.product (match_nodes ''Component'' (JStr (rel_sourceId rel)) g1)
                    (match_nodes ''Component'' (JStr (rel_targetId rel)) g1)"
    have g': "g' = create_edges (rel_type rel) (Relationship_toRelation rel) ?pairs g1"
      using assms(1) ig Inr by (simp add: createRelationship_def Let_def)
    have ty: "rel_type rel \<noteq> ''HAS_COMMENT''" "rel_type rel \<noteq> ''RELATES_TO''"
      using RelationshipSchema_parse_type[OF Inr] internal_kinds_not_RelationshipType by auto
    have mem: "set ?pairs \<subseteq> set (nodes g1) \<times> set (nodes g1)"
      by (auto simp: match_nodes_def)
    show ?thesis
      unfolding g' using i1 mem ty by (intro graph_inv_create_edges') simp_all
  qed
qed

lemma inv_createTask:
  assumes "createTask env d g = (r, g')" and "graph_inv g"
  shows "graph_inv g'"
proof -
  obtain i g1 where ig: "id_or_uuid env d g = (i, g1)" by (cases "id_or_uuid env d g")
  have i1: "graph_inv g1" using assms(2) inv_id_or_uuid[OF ig] by simp
  show ?thesis
  proof (cases "TaskSchema_parse (AList.update ''id'' i d)")
    case (Inl e)
    then show ?thesis using assms(1) ig i1 by (simp add: createTask_def)
  next
    case (Inr task)
    obtain x g2 where cn: "create_node [''Task''] (Task_toNode task) g1 = (x, g2)"
      by (cases "create_node [''Task''] (Task_toNode task) g1")
    have i2: "graph_inv g2" using cn i1 by (rule inv_create_node) simp
    show ?thesis
    proof (cases x)
      case (Inl e)
      then show ?thesis using assms(1) ig Inr cn i2 by (simp add: createTask_def)
    next
      case (Inr n)
      let ?pairs = "List.product (match_nodes ''Task'' (JStr (task_id task)) g2)
                      (related_components (task_relatedComponentIds task) g2)"
      have lab: "labels_ok (n_labels s)" if "s \<in> set (nodes g2)" for s
        using i2 that by (simp add: graph_inv_def)
      have nc: "\<not> has_label ''Component'' (fst p)" if "p \<in> set ?pairs" for p
      proof -
        from that have "fst p \<in> set (nodes g2)" "has_label ''Task'' (fst p)"
          by (auto simp: match_nodes_def)
        then show ?thesis using lab labels_ok_not_component[of "fst p"] by blast
      qed
      have mem: "set ?pairs \<subseteq> set (nodes g2) \<times> set (nodes g2)"
        by (auto simp: match_nodes_def related_components_def)
      have "graph_inv (create_edges ''RELATES_TO'' [] ?pairs g2)"
        using i2 mem nc by (intro graph_inv_create_edges') simp_all
      then show ?thesis
        using assms(1) ig \<open>TaskSchema_parse (AList.update ''id'' i d) = Inr task\<close> cn Inr i2
        by (auto simp: createTask_def split: if_splits)
    qed
  qed
qed

lemma inv_createComment:
  assumes "createComment env d g = (r, g')" and "graph_inv g"
  shows "graph_inv g'"
proof -
  obtain u g1 where u: "uuidv4 env g = (u, g1)" by (cases "uuidv4 env g")
  obtain t g2 where t: "toISOString env g1 = (t, g2)" by (cases "toISOString env g1")
  have i2: "graph_inv g2" using assms(2) inv_uuidv4[OF u] inv_toISOString[OF t] by simp
  show ?thesis
  proof (cases "filter (id_is (or_null (map_of d ''nodeId''))) (nodes g2) = []")
    case True
    then show ?thesis using assms(1) u t i2 by (simp add: createComment_def)
  next
    case False
    obtain x g3 where cn: "create_node [''Comment'']
             [(''id'', JStr u), (''content'', or_null (map_of d ''content'')),
              (''author'', js_or (map_of d ''author'') (JStr ''system'')),
              (''created'', JStr t)] g2 = (x, g3)"
      by (cases "create_node [''Comment'']
             [(''id'', JStr u), (''content'', or_null (map_of d ''content'')),
              (''author'', js_or (map_of d ''author'') (JStr ''system'')),
              (''created'', JStr t)] g2")
    have i3: "graph_inv g3" using cn i2 by (rule inv_create_node) simp
    show ?thesis
    proof (cases x)
      case (Inl e)
      then show ?thesis using assms(1) u t False cn i3 by (simp add: createComment_def)
    next
      case (Inr c)
      let ?pairs = "List.product (filter (id_is (or_null (map_of d ''nodeId''))) (nodes g3))
                      (match_nodes ''Comment'' (JStr u) g3)"
      have lab: "labels_ok (n_labels s)" if "s \<in> set (nodes g3)" for s
        using i3 that by (simp add: graph_inv_def)
      have nc: "\<not> has_label ''Component'' (snd p)" if "p \<in> set ?pairs" for p
      proof -
        from that have "snd p \<in> set (nodes g3)" "has_label ''Comment'' (snd p)"
          by (auto simp: match_nodes_def)
        then show ?thesis using lab labels_ok_not_component[of "snd p"] by blast
      qed
      have mem: "set ?pairs \<subseteq> set (nodes g3) \<times> set (nodes g3)"
        by (auto simp: match_nodes_def)
      have "graph_inv (create_edges ''HAS_COMMENT'' [] ?pairs g3)"
        using i3 mem nc by (intro graph_inv_create_edges') simp_all
      then show ?thesis
        using assms(1) u t False cn Inr by (simp add: createComment_def)
    qed
  qed
qed

lemma inv_createComponents_tx:
  "createComponents_tx env ds g = (r, g') \<Longrightarrow> graph_inv g \<Longrightarrow> graph_inv g'"
proof (induction ds arbitrary: g r g')
  case Nil
  then show ?case by simp
next
  case (Cons d ds)
  obtain x g1 where c: "create_component_node env d g = (x, g1)"
    by (cases "create_component_node env d g")
  have i1: "graph_inv g1" using c Cons.prems(2) by (rule inv_create_component_node)
  show ?case
  proof (cases x)
    case (Inl e)
    then show ?thesis using Cons.prems(1) c i1 by simp
  next
    case (Inr n)
    obtain y g2 where t: "createComponents_tx env ds g1 = (y, g2)"
      by (cases "createComponents_tx env ds g1")
    have "graph_inv g2" using t i1 by (rule Cons.IH)
    then show ?thesis using Cons.prems(1) c Inr t by (cases y) auto
  qed
qed

lemma inv_record_bulk_changes:
  "record_bulk_changes env ns md g = (r, g') \<Longrightarrow> graph_inv g \<Longrightarrow> graph_inv g'"
proof (induction ns arbitrary: g r g')
  case Nil
  then show ?case by simp
next
  case (Cons n ns)
  obtain x g1 where c: "recordChange env ''CREATE_COMPONENT_BULK'' ''COMPONENT'' (node_prop n ''id'') JNull
             (JObj (n_props n)) md g = (x, g1)"
    by (cases "recordChange env ''CREATE_COMPONENT_BULK'' ''COMPONENT'' (node_prop n ''id'') JNull
             (JObj (n_props n)) md g")
  have i1: "graph_inv g1" using c Cons.prems(2) by (rule inv_recordChange)
  show ?case
  proof (cases x)
    case (Inl e)
    then show ?thesis using Cons.prems(1) c i1 by simp
  next
    case (Inr ev)
    then have "record_bulk_changes env ns md g1 = (r, g')" using Cons.prems(1) c by simp
    then show ?thesis using i1 by (rule Cons.IH)
  qed
qed

lemma inv_createComponents:
  assumes "createComponents env ds md g = (r, g')" and "graph_inv g"
  shows "graph_inv g'"
proof -
  obtain x g1 where t: "createComponents_tx env ds g = (x, g1)"
    by (cases "createComponents_tx env ds g")
  have i1: "graph_inv g1" using t assms(2) by (rule inv_createComponents_tx)
  show ?thesis
  proof (cases x)
    case (Inl e)
    then have "g' = rollback g g1" using assms(1) t by (simp add: createComponents_def)
    then show ?thesis using assms(2) by (simp add: inv_rollback)
  next
    case (Inr ns)
    then obtain y where "record_bulk_changes env ns
        (spread [(''bulkOperation'', JBool True), (''totalCount'', JNum (of_nat (length ns)))] md) g1
          = (y, g')"
      using assms(1) t by (auto simp: createComponents_def split: prod.splits sum.splits)
    then show ?thesis using i1 by (rule inv_record_bulk_changes)
  qed
qed

lemma inv_createRelationships_tx:
  "createRelationships_tx env ds g = (r, g') \<Longrightarrow> graph_inv g \<Longrightarrow> graph_inv g'"
proof (induction ds arbitrary: g r g')
  case Nil
  then show ?case by simp
next
  case (Cons d ds)
  obtain x g1 where c: "createRelationship env d g = (x, g1)"
    by (cases "createRelationship env d g")
  have i1: "graph_inv g1" using c Cons.prems(2) by (rule inv_createRelationship)
  show ?case
  proof (cases x)
    case (Inl e)
    then show ?thesis using Cons.prems(1) c i1 by simp
  next
    case (Inr n)
    obtain y g2 where t: "createRelationships_tx env ds g1 = (y, g2)"
      by (cases "createRelationships_tx env ds g1")
    have "graph_inv g2" using t i1 by (rule Cons.IH)
    then show ?thesis using Cons.prems(1) c Inr t by (cases y) auto
  qed
qed

lemma inv_createRelationships:
  assumes "createRelationships env ds g = (r, g')" and "graph_inv g"
  shows "graph_inv g'"
proof -
  obtain x g1 where t: "createRelationships_tx env ds g = (x, g1)"
    by (cases "createRelationships_tx env ds g")
  have i1: "graph_inv g1" using t assms(2) by (rule inv_createRelationships_tx)
  show ?thesis
  proof (cases x)
    case (Inl e)
    then have "g' = rollback g g1" using assms(1) t by (simp add: createRelationships_def)
    then show ?thesis using assms(2) by (simp add: inv_rollback)
  next
    case (Inr rs)
    then show ?thesis using assms(1) t i1 by (simp add: createRelationships_def)
  qed
qed

lemma inv_createTasks_tx:
  "createTasks_tx env ds g = (r, g') \<Longrightarrow> graph_inv g \<Longrightarrow> graph_inv g'"
proof (induction ds arbitrary: g r g')
  case Nil
  then show ?case by simp
next
  case (Cons d ds)
  obtain x g1 where c: "createTask env d g = (x, g1)"
    by (cases "createTask env d g")
  have i1: "graph_inv g1" using c Cons.prems(2) by (rule inv_createTask)
  show ?case
  proof (cases x)
    case (Inl e)
    then show ?thesis using Cons.prems(1) c i1 by simp
  next
    case (Inr n)
    obtain y g2 where t: "createTasks_tx env ds g1 = (y, g2)"
      by (cases "createTasks_tx env ds g1")
    have "graph_inv g2" using t i1 by (rule Cons.IH)
    then show ?thesis using Cons.prems(1) c Inr t by (cases y) auto
  qed
qed

lemma inv_createTasks:
  assumes "createTasks env ds g = (r, g')" and "graph_inv g"
  shows "graph_inv g'"
proof -
  obtain x g1 where t: "createTasks_tx env ds g = (x, g1)"
    by (cases "createTasks_tx env ds g")
  have i1: "graph_inv g1" using t assms(2) by (rule inv_createTasks_tx)
  show ?thesis
  proof (cases x)
    case (Inl e)
    then have "g' = rollback g g1" using assms(1) t by (simp add: createTasks_def)
    then show ?thesis using assms(2) by (simp add: inv_rollback)
  next
    case (Inr rs)
    then show ?thesis using assms(1) t i1 by (simp add: createTasks_def)
  qed
qed

lemma inv_createSnapshot:
  assumes "createSnapshot env name md g = (r, g')" and "graph_inv g"
  shows "graph_inv g'"
proof -
  obtain u g1 where u: "uuidv4 env g = (u, g1)" by (cases "uuidv4 env g")
  obtain t g2 where t: "toISOString env g1 = (t, g2)" by (cases "toISOString env g1")
  have i2: "graph_inv g2" using assms(2) inv_uuidv4[OF u] inv_toISOString[OF t] by simp
  from assms(1) u t obtain ps x where "create_node [''Snapshot''] ps g2 = (x, g')"
    by (auto simp: createSnapshot_def Let_def split: prod.splits sum.splits)
  then show ?thesis using i2 by (rule inv_create_node) simp
qed

lemma inv_no_value: "no_value x = (r, g') \<Longrightarrow> snd x = g'"
  by (auto simp: no_value_def split: prod.splits sum.splits)

lemma inv_with_object:
  assumes "with_object env v create g = (r, g')" and "graph_inv g"
    and "\<And>d. graph_inv (snd (create d g))"
  shows "graph_inv g'"
proof (cases v)
  case (JObj d)
  then show ?thesis using assms(1) assms(3)[of d] by (simp add: with_object_def)
qed (use assms(1,2) inv_uuidv4[of env g] in \<open>auto simp: with_object_def prod_eq_iff\<close>)

lemma inv_replayChange:
  assumes "replayChange env change g = (r, g')" and "graph_inv g"
  shows "graph_inv g'"
proof -
  have cc: "graph_inv (snd (createComponent env d [] g))" for d
    using inv_createComponent[of env d "[]" g] assms(2) by (cases "createComponent env d [] g") simp
  have uc: "graph_inv (snd (updateComponent i d g))" for i d
    using inv_updateComponent[of i d g] assms(2) by (cases "updateComponent i d g") simp
  have ct: "graph_inv (snd (createTask env d g))" for d
    using inv_createTask[of env d g] assms(2) by (cases "createTask env d g") simp
  have ut: "graph_inv (snd (updateTaskStatus i s p g))" for i s p
    using inv_updateTaskStatus[of i s p g] assms(2) by (cases "updateTaskStatus i s p g") simp
  have cr: "graph_inv (snd (createRelationship env d g))" for d
    using inv_createRelationship[of env d g] assms(2) by (cases "createRelationship env d g") simp
  have dc: "graph_inv (snd (deleteComponent i g))" for i
    using assms(2) by (rule inv_deleteComponent)
  have wc: "graph_inv (snd (with_object env v (\<lambda>d. createComponent env d []) g))" for v
    using inv_with_object[of env v "\<lambda>d. createComponent env d []" g] assms(2) cc
    by (cases "with_object env v (\<lambda>d. createComponent env d []) g") simp
  have wt: "graph_inv (snd (with_object env v (\<lambda>d. createTask env d) g))" for v
    using inv_with_object[of env v "\<lambda>d. createTask env d" g] assms(2) ct
    by (cases "with_object env v (\<lambda>d. createTask env d) g") simp
  have wr: "graph_inv (snd (with_object env v (\<lambda>d. createRelationship env d) g))" for v
    using inv_with_object[of env v "\<lambda>d. createRelationship env d" g] assms(2) cr
    by (cases "with_object env v (\<lambda>d. createRelationship env d) g") simp
  show ?thesis
    using assms uc ut dc wc wt wr
    by (auto simp: replayChange_def split: if_splits option.splits dest!: inv_no_value)
qed

lemma inv_replay_all:
  "replay_all env cs g = (entries, g') \<Longrightarrow> graph_inv g \<Longrightarrow> graph_inv g'"
proof (induction cs arbitrary: g entries g')
  case Nil
  then show ?case by simp
next
  case (Cons c cs)
  obtain r g1 where c: "replayChange env c g = (r, g1)" by (cases "replayChange env c g")
  have i1: "graph_inv g1" using c Cons.prems(2) by (rule inv_replayChange)
  obtain es g2 where t: "replay_all env cs g1 = (es, g2)" by (cases "replay_all env cs g1")
  have "graph_inv g2" using t i1 by (rule Cons.IH)
  then show ?case using Cons.prems(1) c t by simp
qed

lemma inv_replayToTimestamp:
  assumes "replayToTimestamp env ts dry g = (r, g')" and "graph_inv g"
  shows "graph_inv g'"
proof (cases "getChangesByTimeRange epoch ts 1000 g")
  case (Inl e)
  then show ?thesis using assms by (simp add: replayToTimestamp_def)
next
  case (Inr changes)
  show ?thesis
  proof (cases dry)
    case True
    then show ?thesis using assms Inr by (simp add: replayToTimestamp_def)
  next
    case False
    obtain es g1 where t: "replay_all env changes
         (detach_delete (\<lambda>n. \<not> has_label ''ChangeEvent'' n) g) = (es, g1)"
      by (cases "replay_all env changes (detach_delete (\<lambda>n. \<not> has_label ''ChangeEvent'' n) g)")
    have "graph_inv g1" using t graph_inv_detach_delete[OF assms(2)] by (rule inv_replay_all)
    then show ?thesis using assms Inr False t by (simp add: replayToTimestamp_def)
  qed
qed

lemma inv_restore_components:
  "restore_components env cs g = (r, g') \<Longrightarrow> graph_inv g \<Longrightarrow> graph_inv g'"
proof (induction cs arbitrary: g r g')
  case Nil
  then show ?case by simp
next
  case (Cons c cs)
  obtain x g1 where c: "with_object env c (\<lambda>d. createComponent env d []) g = (x, g1)"
    by (cases "with_object env c (\<lambda>d. createComponent env d []) g")
  have "graph_inv (snd (createComponent env d [] g))" for d
    using inv_createComponent[of env d "[]" g] Cons.prems(2)
    by (cases "createComponent env d [] g") simp
  then have i1: "graph_inv g1" using inv_with_object[OF c Cons.prems(2)] by simp
  show ?case using Cons.prems(1) c i1 Cons.IH[of g1] by (cases x) auto
qed

lemma inv_restore_tasks:
  "restore_tasks env cs g = (r, g') \<Longrightarrow> graph_inv g \<Longrightarrow> graph_inv g'"
proof (induction cs arbitrary: g r g')
  case Nil
  then show ?case by simp
next
  case (Cons c cs)
  obtain x g1 where c: "with_object env c (\<lambda>d. createTask env d) g = (x, g1)"
    by (cases "with_object env c (\<lambda>d. createTask env d) g")
  have "graph_inv (snd (createTask env d g))" for d
    using inv_createTask[of env d g] Cons.prems(2) by (cases "createTask env d g") simp
  then have i1: "graph_inv g1" using inv_with_object[OF c Cons.prems(2)] by simp
  show ?case using Cons.prems(1) c i1 Cons.IH[of g1] by (cases x) auto
qed

lemma inv_restore_relationships:
  "restore_relationships env cs g = (r, g') \<Longrightarrow> graph_inv g \<Longrightarrow> graph_inv g'"
proof (induction cs arbitrary: g r g')
  case Nil
  then show ?case by simp
next
  case (Cons c cs)
  obtain x g1 where c: "with_object env c (\<lambda>d. createRelationship env d) g = (x, g1)"
    by (cases "with_object env c (\<lambda>d. createRelationship env d) g")
  have "graph_inv (snd (createRelationship env d g))" for d
    using inv_createRelationship[of env d g] Cons.prems(2)
    by (cases "createRelationship env d g") simp
  then have i1: "graph_inv g1" using inv_with_object[OF c Cons.prems(2)] by simp
  show ?case using Cons.prems(1) c i1 Cons.IH[of g1] by (cases x) auto
qed

lemma inv_restore_all:
  assumes "restore_all env data g = (r, g')" and "graph_inv g"
  shows "graph_inv g'"
proof (cases "payload_list data ''components''")
  case (Inl e)
  then show ?thesis using assms by (simp add: restore_all_def)
next
  case cs: (Inr cs)
  obtain x g1 where c: "restore_components env cs g = (x, g1)"
    by (cases "restore_components env cs g")
  have i1: "graph_inv g1" using c assms(2) by (rule inv_restore_components)
  show ?thesis
  proof (cases x)
    case (Inl e)
    then show ?thesis using assms(1) cs c i1 by (simp add: restore_all_def)
  next
    case xr: (Inr u)
    show ?thesis
    proof (cases "payload_list data ''tasks''")
      case (Inl e)
      then show ?thesis using assms(1) cs c xr i1 by (simp add: restore_all_def)
    next
      case ts: (Inr ts)
      obtain y g2 where t: "restore_tasks env ts g1 = (y, g2)"
        by (cases "restore_tasks env ts g1")
      have i2: "graph_inv g2" using t i1 by (rule inv_restore_tasks)
      show ?thesis
      proof (cases y)
        case (Inl e)
        then show ?thesis using assms(1) cs c xr ts t i2 by (simp add: restore_all_def)
      next
        case yr: (Inr u')
        show ?thesis
        proof (cases "payload_list data ''relationships''")
          case (Inl e)
          then show ?thesis using assms(1) cs c xr ts t yr i2 by (simp add: restore_all_def)
        next
          case rs: (Inr rs)
          obtain z g3 where rr: "restore_relationships env rs g2 = (z, g3)"
            by (cases "restore_relationships env rs g2")
          have i3: "graph_inv g3" using rr i2 by (rule inv_restore_relationships)
          show ?thesis
            using assms(1) cs c xr ts t yr rs rr i3 by (cases z) (simp_all add: restore_all_def)
        qed
      qed
    qed
  qed
qed

lemma inv_restoreFromSnapshot:
  assumes "restoreFromSnapshot env i dry g = (r, g')" and "graph_inv g"
  shows "graph_inv g'"
proof (cases "match_nodes ''Snapshot'' i g")
  case Nil
  then show ?thesis using assms by (simp add: restoreFromSnapshot_def)
next
  case (Cons s others)
  show ?thesis
  proof (cases "JSON_parse (node_prop s ''data'')")
    case (Inl e)
    then show ?thesis using assms Cons by (simp add: restoreFromSnapshot_def)
  next
    case (Inr data)
    show ?thesis
    proof (cases dry)
      case True
      then show ?thesis using assms Cons Inr by (simp add: restoreFromSnapshot_def)
    next
      case False
      let ?g0 = "detach_delete (\<lambda>n. \<not> (has_label ''ChangeEvent'' n \<or> has_label ''Snapshot'' n)) g"
      have i0: "graph_inv ?g0" using assms(2) by (rule graph_inv_detach_delete)
      have "restore_all env data ?g0 = (r, g')"
        using assms(1) Cons Inr False by (simp add: restoreFromSnapshot_def)
      then show ?thesis using i0 by (rule inv_restore_all)
    qed
  qed
qed

lemma inv_store_step:
  assumes "graph_inv g"
  shows "graph_inv (store_step env op g)"
proof (cases op)
  case (CreateComponent d md)
  then show ?thesis using inv_createComponent[of env d md g] assms
    by (cases "createComponent env d md g") simp
next
  case (UpdateComponent i u)
  then show ?thesis using inv_updateComponent[of i u g] assms
    by (cases "updateComponent i u g") simp
next
  case (DeleteComponent i)
  then show ?thesis using inv_deleteComponent[of g i] assms by simp
next
  case (CreateRelationship d)
  then show ?thesis using inv_createRelationship[of env d g] assms
    by (cases "createRelationship env d g") simp
next
  case (CreateTask d)
  then show ?thesis using inv_createTask[of env d g] assms
    by (cases "createTask env d g") simp
next
  case (UpdateTaskStatus i s p)
  then show ?thesis using inv_updateTaskStatus[of i s p g] assms
    by (cases "updateTaskStatus i s p g") simp
next
  case (CreateComponents ds md)
  then show ?thesis using inv_createComponents[of env ds md g] assms
    by (cases "createComponents env ds md g") simp
next
  case (CreateRelationships ds)
  then show ?thesis using inv_createRelationships[of env ds g] assms
    by (cases "createRelationships env ds g") simp
next
  case (CreateTasks ds)
  then show ?thesis using inv_createTasks[of env ds g] assms
    by (cases "createTasks env ds g") simp
next
  case (CreateComment d)
  then show ?thesis using inv_createComment[of env d g] assms
    by (cases "createComment env d g") simp
next
  case (UpdateComment i u)
  then show ?thesis using inv_updateComment[of env i u g] assms
    by (cases "updateComment env i u g") simp
next
  case (DeleteComment i)
  then show ?thesis using inv_deleteComment[of g i] assms by simp
next
  case (CreateSnapshot name md)
  then show ?thesis using inv_createSnapshot[of env name md g] assms
    by (cases "createSnapshot env name md g") simp
next
  case (RestoreFromSnapshot i dry)
  then show ?thesis using inv_restoreFromSnapshot[of env i dry g] assms
    by (cases "restoreFromSnapshot env i dry g") simp
next
  case (ReplayToTimestamp t dry)
  then show ?thesis using inv_replayToTimestamp[of env t dry g] assms
    by (cases "replayToTimestamp env t dry g") simp
qed

lemma reachable_graph_inv: "reachable_graph g \<Longrightarrow> graph_inv g"
proof (induction rule: reachable_graph.induct)
  case reachable_empty
  show ?case by (simp add: graph_inv_def empty_graph_def)
next
  case (reachable_store_step g env op)
  then show ?case by (simp add: inv_store_step)
qed

lemma is_component_with_node:
  "is_component_with g i k \<Longrightarrow> \<exists>n \<in> set (nodes g). n_key n = k \<and> has_label ''Component'' n"
  by (auto simp: is_component_with_def node_at_def find_Some_iff split: option.splits)

lemma component_edge_kind:
  assumes inv: "graph_inv g" and e: "e \<in> set (edges g)"
    and s: "is_component_with g i (e_start e)" and t: "is_component_with g j (e_end e)"
  shows "e_type e \<noteq> ''HAS_COMMENT'' \<and> e_type e \<noteq> ''RELATES_TO''"
proof -
  have ok: "edge_ok g e" using inv e by (simp add: graph_inv_def)
  show ?thesis
    using ok is_component_with_node[OF s] is_component_with_node[OF t]
    unfolding edge_ok_def by blast
qed

lemma outgoing_rows_kinds:
  assumes inv: "graph_inv g"
  shows "''HAS_COMMENT'' \<notin> set (row_kinds (outgoing_rows i d g))
       \<and> ''RELATES_TO'' \<notin> set (row_kinds (outgoing_rows i d g))"
proof -
  have "e_type (row_edge r) \<noteq> ''HAS_COMMENT'' \<and> e_type (row_edge r) \<noteq> ''RELATES_TO''"
    if "r \<in> set (outgoing_rows i d g)" for r
  proof -
    from that obtain e where e: "e \<in> set (edges g)" "row_edge r = e"
      "is_component_with g (Some i) (e_start e)" "is_component_with g None (e_end e)"
      by (auto simp: outgoing_rows_def)
    show ?thesis using component_edge_kind[OF inv e(1) e(3) e(4)] e(2) by simp
  qed
  then have no: "\<And>r. r \<in> set (outgoing_rows i d g) \<Longrightarrow>
      e_type (row_edge r) \<noteq> ''HAS_COMMENT'' \<and> e_type (row_edge r) \<noteq> ''RELATES_TO''" .
  show ?thesis
  proof (intro conjI notI)
    assume "''HAS_COMMENT'' \<in> set (row_kinds (outgoing_rows i d g))"
    then obtain r where "r \<in> set (outgoing_rows i d g)" "e_type (row_edge r) = ''HAS_COMMENT''"
      by (auto simp: row_kinds_def)
    then show False using no by blast
  next
    assume "''RELATES_TO'' \<in> set (row_kinds (outgoing_rows i d g))"
    then obtain r where "r \<in> set (outgoing_rows i d g)" "e_type (row_edge r) = ''RELATES_TO''"
      by (auto simp: row_kinds_def)
    then show False using no by blast
  qed
qed

lemma incoming_rows_kinds:
  assumes inv: "graph_inv g"
  shows "''HAS_COMMENT'' \<notin> set (row_kinds (incoming_rows i d g))
       \<and> ''RELATES_TO'' \<notin> set (row_kinds (incoming_rows i d g))"
proof -
  have "e_type (row_edge r) \<noteq> ''HAS_COMMENT'' \<and> e_type (row_edge r) \<noteq> ''RELATES_TO''"
    if "r \<in> set (incoming_rows i d g)" for r
  proof -
    from that obtain e where e: "e \<in> set (edges g)" "row_edge r = e"
      "is_component_with g None (e_start e)" "is_component_with g (Some i) (e_end e)"
      by (auto simp: incoming_rows_def)
    show ?thesis using component_edge_kind[OF inv e(1) e(3) e(4)] e(2) by simp
  qed
  then have no: "\<And>r. r \<in> set (incoming_rows i d g) \<Longrightarrow>
      e_type (row_edge r) \<noteq> ''HAS_COMMENT'' \<and> e_type (row_edge r) \<noteq> ''RELATES_TO''" .
  show ?thesis
  proof (intro conjI notI)
    assume "''HAS_COMMENT'' \<in> set (row_kinds (incoming_rows i d g))"
    then obtain r where "r \<in> set (incoming_rows i d g)" "e_type (row_edge r) = ''HAS_COMMENT''"
      by (auto simp: row_kinds_def)
    then show False using no by blast
  next
    assume "''RELATES_TO'' \<in> set (row_kinds (incoming_rows i d g))"
    then obtain r where "r \<in> set (incoming_rows i d g)" "e_type (row_edge r) = ''RELATES_TO''"
      by (auto simp: row_kinds_def)
    then show False using no by blast
  qed
qed

lemma row_kinds_append: "row_kinds (xs @ ys) = row_kinds xs @ row_kinds ys"
  by (simp add: row_kinds_def)

lemma relationship_records_kinds:
  assumes inv: "graph_inv g"
  shows "''HAS_COMMENT'' \<notin> set (row_kinds (relationship_records componentId direction g))
       \<and> ''RELATES_TO'' \<notin> set (row_kinds (relationship_records componentId direction g))"
  using outgoing_rows_kinds[OF inv, of componentId None]
    incoming_rows_kinds[OF inv, of componentId None]
    outgoing_rows_kinds[OF inv, of componentId "Some ''outgoing''"]
    incoming_rows_kinds[OF inv, of componentId "Some ''incoming''"]
  by (simp add: relationship_records_def row_kinds_append)

lemma map_records_kinds:
  "map_records (record_object direction) rs = Inr rows \<Longrightarrow> row_kinds rows = row_kinds rs"
proof (induction rs arbitrary: rows)
  case Nil
  then show ?case by simp
next
  case (Cons r rs)
  from Cons.prems obtain x xs where x: "record_object direction r = Inr x"
    and xs: "map_records (record_object direction) rs = Inr xs" and rows: "rows = x # xs"
    by (auto simp: bind_Inr)
  have "row_edge x = row_edge r"
    using x by (auto simp: record_object_def split: option.splits)
  then show ?case using Cons.IH[OF xs] rows by (simp add: row_kinds_def)
qed

lemma returned_rows_kinds:
  "set (row_kinds (returned_rows (getComponentRelationships componentId direction g)))
     \<subseteq> set (row_kinds (relationship_records componentId direction g))"
proof (cases "getComponentRelationships componentId direction g")
  case (Inl e)
  then show ?thesis by (simp add: returned_rows_def row_kinds_def)
next
  case (Inr rows)
  then show ?thesis
    using map_records_kinds[of direction "relationship_records componentId direction g" rows]
    by (simp add: returned_rows_def getComponentRelationships_def)
qed

text \<open>
  Claim C8: in every graph that the store's operations can reach, for every component id
  and every direction argument (\<open>outgoing\<close>, \<open>incoming\<close>, or anything else, which means
  \<open>both\<close>), no record of the query of \<open>getComponentRelationships\<close> is an edge of kind
  HAS_COMMENT or RELATES_TO, and so no row that the call returns is one.
\<close>

theorem relationships_exclude_internal_kinds:
  assumes "reachable_graph g"
  shows "''HAS_COMMENT'' \<notin> set (row_kinds (relationship_records componentId direction g))
       \<and> ''RELATES_TO'' \<notin> set (row_kinds (relationship_records componentId direction g))
       \<and> ''HAS_COMMENT'' \<notin>
             set (row_kinds (returned_rows (getComponentRelationships componentId direction g)))
       \<and> ''RELATES_TO'' \<notin>
             set (row_kinds (returned_rows (getComponentRelationships componentId direction g)))"
proof -
  have inv: "graph_inv g" using assms by (rule reachable_graph_inv)
  show ?thesis
    using relationship_records_kinds[OF inv, of componentId direction]
      returned_rows_kinds[of componentId direction g]
    by blast
qed

text \<open>
  The graph of scenario S2 has a CONTAINS, a HAS_COMMENT and a RELATES_TO edge at F; the
  records for F in both directions, and the rows returned, hold the CONTAINS edge only.
\<close>

theorem relationships_exclude_internal_kinds_witness:
  "reachable_graph s2_graph
   \<and> map e_type (edges s2_graph) = [''CONTAINS'', ''HAS_COMMENT'', ''RELATES_TO'']
   \<and> row_kinds (relationship_records f_id ''both'' s2_graph) = [''CONTAINS'']
   \<and> row_kinds (returned_rows (getComponentRelationships f_id ''both'' s2_graph)) = [''CONTAINS'']
   \<and> ''HAS_COMMENT'' \<notin>
         set (row_kinds (returned_rows (getComponentRelationships f_id ''both'' s2_graph)))
   \<and> ''RELATES_TO'' \<notin>
         set (row_kinds (returned_rows (getComponentRelationships f_id ''both'' s2_graph)))"
proof -
  have r: "reachable_graph s2_graph"
    unfolding s2_graph_def by (intro reachable_graph.intros)
  have e: "map e_type (edges s2_graph) = [''CONTAINS'', ''HAS_COMMENT'', ''RELATES_TO'']"
    by code_simp
  have k: "row_kinds (relationship_records f_id ''both'' s2_graph) = [''CONTAINS'']"
    by code_simp
  have k': "row_kinds (returned_rows (getComponentRelationships f_id ''both'' s2_graph))
              = [''CONTAINS'']"
    by code_simp
  show ?thesis
    using relationships_exclude_internal_kinds [OF r, of f_id "''both''"] r e k k' by simp
qed

subsection \<open>The entries a replay considers\<close>

lemma decode_changes_length: "decode_changes ns = Inr cs \<Longrightarrow> length cs = length ns"
proof (induction ns arbitrary: cs)
  case Nil
  then show ?case by simp
next
  case (Cons n ns)
  then show ?case by (auto simp: bind_def split: sum.splits)
qed

lemma decode_changes_total:
  "list_all (\<lambda>n. \<exists>c. decode_change n = Inr c) ns \<Longrightarrow> \<exists>cs. decode_changes ns = Inr cs"
proof (induction ns)
  case Nil
  then show ?case by simp
next
  case (Cons n ns)
  then show ?case by (auto simp: bind_def)
qed

lemma numbered_event_decodes: "\<exists>c. decode_change (numbered_event i) = Inr c"
  by (simp add: decode_change_def decode_state_def node_prop_def numbered_event_def bind_def)

lemma numbered_event_in_range: "in_time_range epoch crowded_target (numbered_event i)"
  by (simp add: in_time_range_def node_prop_def numbered_event_def numbered_time_def epoch_def
        crowded_target_def less_eq_char_def less_char_def)

lemma crowded_journal: "journal crowded_graph = map numbered_event [0 ..< 1001]"
  by (simp add: journal_def crowded_graph_def filter_map comp_def has_label_def numbered_event_def)

lemma crowded_in_range:
  "filter (in_time_range epoch crowded_target) (journal crowded_graph) = journal crowded_graph"
  by (simp add: crowded_journal numbered_event_in_range)

lemma changes_in_range_subset:
  "set (changes_in_range s e l g) \<subseteq> set (journal g)"
  by (auto simp: changes_in_range_def dest: in_set_takeD)

text \<open>
  Claim C5 on a journal of 1001 entries, all of them at or before the target: the dry run
  of \<open>replayToTimestamp\<close> lists 1000 entries, not 1001. \<open>getChangesByTimeRange\<close> is
  called without a limit and applies its default, \<open>LIMIT 1000\<close>.
\<close>

theorem replay_considers_only_1000_entries:
  "length (filter (in_time_range epoch crowded_target) (journal crowded_graph)) = 1001
   \<and> would_replay_count (fst (replayToTimestamp example_env crowded_target True crowded_graph))
       = Some 1000"
proof -
  have n: "length (filter (in_time_range epoch crowded_target) (journal crowded_graph)) = 1001"
    by (simp add: crowded_in_range) (simp add: crowded_journal)
  have l: "length (changes_in_range epoch crowded_target 1000 crowded_graph) = 1000"
    using n by (simp add: changes_in_range_def)
  have "list_all (\<lambda>n. \<exists>c. decode_change n = Inr c)
          (changes_in_range epoch crowded_target 1000 crowded_graph)"
    using changes_in_range_subset[of epoch crowded_target 1000 crowded_graph]
    by (auto simp: list_all_iff crowded_journal numbered_event_decodes)
  then obtain cs where cs: "getChangesByTimeRange epoch crowded_target 1000 crowded_graph = Inr cs"
    unfolding getChangesByTimeRange_def using decode_changes_total by blast
  then have "length cs = 1000"
    using l decode_changes_length by (simp add: getChangesByTimeRange_def)
  then show ?thesis
    using n cs by (simp add: replayToTimestamp_def would_replay_count_def)
qed

subsection \<open>Snapshot and restore\<close>







lemma spread_Nil [simp]: "spread [] base = base"
  by (simp add: spread_def)








lemma added_nodes_refl [simp]: "added_nodes g g"
  by (simp add: added_nodes_def)








subsection \<open>Restoring the relationships\<close>























end
